theory Spec2Isabelle
  imports
    Complex_Main
    "HOL-Library.Word"
    "HOL-Library.Char_ord"
    "HOL-Library.List_Lexorder"
begin

unbundle bit_operations_syntax

section \<open>Drum sample extraction: a model of \<open>tools/extract_drums.py\<close>\<close>

text \<open>
  The model follows \<open>src/tools/extract_drums.py\<close>. Python integers are \<open>int\<close>,
  NumPy \<open>int16\<close> values are \<open>16 word\<close>, bytes are \<open>8 word\<close>. Exceptions
  are values of \<open>error\<close>, returned on the left of a sum.

  Audio buffers are NumPy float arrays in the source. Here a buffer is a \<open>real list\<close>.
  The two places where the rounding of floating-point arithmetic decides what is written
  take the rounding as a parameter: the product \<open>x * 32767\<close> of \<open>save_as_raw\<close>, and
  the scaling of the last stage of the chain, \<open>normalize_audio_fl\<close>. The predicate
  \<open>float_rounding\<close> states what is assumed of a rounding, and \<open>fl32\<close> is the rounding
  of binary32, the format of the buffers that are read from a WAV file. The arithmetic of
  the other transformations, and of \<open>normalize_audio\<close>, is exact: the statements about
  them are statements about the transformation itself, before any rounding. NaN and
  infinities are not part of the model.
\<close>

datatype error =
    ValueError    \<comment> \<open>NumPy: reduction of an empty array, reshape or broadcast mismatch\<close>
  | TypeError     \<comment> \<open>an operand of the wrong Python type\<close>
  | StructError   \<comment> \<open>\<open>struct.error\<close>: buffer size does not fit the format\<close>
  | ZeroDivisionError

text \<open>Sequencing of fallible steps: the first exception ends the computation.\<close>

fun ebind :: "error + 'a \<Rightarrow> ('a \<Rightarrow> error + 'b) \<Rightarrow> error + 'b" where
  "ebind (Inl e) f = Inl e"
| "ebind (Inr a) f = f a"

subsection \<open>The raw file: \<open>tobytes\<close> and \<open>struct.unpack\<close>\<close>

text \<open>
  \<open>audio_int16.tobytes()\<close>: each 16-bit value as two bytes, low byte first (the
  byte order of the machines the tool runs on, and the one \<open>generate_c_header\<close> reads
  the file back with).
\<close>

fun tobytes :: "16 word list \<Rightarrow> 8 word list" where
  "tobytes [] = []"
| "tobytes (w # ws) = ucast w # ucast (drop_bit 8 w) # tobytes ws"

text \<open>
  \<open>struct.unpack(f'<{num_samples}h', data)\<close> with \<open>num_samples = len(data) // 2\<close>:
  little-endian signed 16-bit integers; the call raises \<open>struct.error\<close> when the buffer
  is not exactly \<open>2 * num_samples\<close> bytes long, that is, when its length is odd.
\<close>

definition le_int16 :: "8 word \<Rightarrow> 8 word \<Rightarrow> int" where
  "le_int16 lo hi =
     (let v = uint lo + 256 * uint hi in if v \<ge> 32768 then v - 65536 else v)"

fun unpack_pairs :: "8 word list \<Rightarrow> int list" where
  "unpack_pairs (lo # hi # rest) = le_int16 lo hi # unpack_pairs rest"
| "unpack_pairs _ = []"

definition struct_unpack_h :: "8 word list \<Rightarrow> error + int list" where
  "struct_unpack_h data =
     (let num_samples = length data div 2
      in if length data \<noteq> 2 * num_samples then Inl StructError
         else Inr (unpack_pairs data))"

subsection \<open>\<open>generate_c_header\<close>: the packed word array\<close>

text \<open>
  The loop \<open>for i in range(0, num_samples, 2)\<close> of \<open>generate_c_header\<close>; the
  result is the sequence of values \<open>packed\<close> it writes, in order.
\<close>

function pack_loop :: "int list \<Rightarrow> nat \<Rightarrow> int list" where
  "pack_loop samples i =
     (if i < length samples then
        (let sample1 = (samples ! i) AND 0xFFFF;
             sample2 = (if i + 1 < length samples then (samples ! (i + 1)) AND 0xFFFF else 0);
             packed = sample1 OR push_bit 16 sample2
         in packed # pack_loop samples (i + 2))
      else [])"
  by pat_completeness auto
termination
  by (relation "measure (\<lambda>(samples, i). length samples - i)") auto

declare pack_loop.simps [simp del]

definition format_word :: "nat \<Rightarrow> int" where
  "format_word num_samples = push_bit 24 0x81 OR (int num_samples AND 0xFFFFFF)"

text \<open>
  What \<open>generate_c_header\<close> emits for the bytes of a raw file: the array length
  \<open>num_uint32\<close> of the declaration, and the word literals of the definition file
  (the format word, then the packed words).
\<close>

definition generate_c_header :: "8 word list \<Rightarrow> error + (nat \<times> int list)" where
  "generate_c_header data =
     (case struct_unpack_h data of
        Inl e \<Rightarrow> Inl e
      | Inr samples \<Rightarrow>
          (let num_samples = length data div 2;
               num_uint32 = 1 + (num_samples + 1) div 2
           in Inr (num_uint32, format_word num_samples # pack_loop samples 0)))"

subsection \<open>Decoding the packed array\<close>

text \<open>
  The specification's reading of the packed array, for comparison with what
  \<open>generate_c_header\<close> writes (the reader itself is the firmware's sample player, which
  this pipeline only feeds). By section 6 of the specification the low 24 bits of word 0
  are the sample count; every later word holds two samples, bits [15:0] first and bits
  [31:16] second, each read as a two's-complement 16-bit integer; only the first
  \<open>count\<close> samples are kept, which drops the padding half-word.
\<close>

definition s16 :: "int \<Rightarrow> int" where
  "s16 v = (if v \<ge> 32768 then v - 65536 else v)"

definition decode_spec :: "int list \<Rightarrow> int list" where
  "decode_spec ws =
     (case ws of
        [] \<Rightarrow> []
      | header # body \<Rightarrow>
          take (nat (header AND 0xFFFFFF))
            (concat (map (\<lambda>w. [s16 (w AND 0xFFFF), s16 (drop_bit 16 w AND 0xFFFF)]) body)))"

subsection \<open>Floating-point rounding\<close>

text \<open>Rounding a real number to the nearest integer, a tie going to the even one.\<close>

definition round_even :: "real \<Rightarrow> int" where
  "round_even x =
     (let f = \<lfloor>x\<rfloor>; r = x - of_int f
      in if r < 1 / 2 then f else if 1 / 2 < r then f + 1 else if even f then f else f + 1)"

text \<open>
  The exponent of the binade of \<open>x\<close> in binary32: the largest \<open>e\<close> from \<open>-126\<close> to 127
  with \<open>2 ^ e \<le> \<bar>x\<bar>\<close>, found by going down from 127, and \<open>-126\<close> when there is none
  (below \<open>2 ^ -126\<close> the numbers are subnormal and keep the spacing of the lowest
  binade).
\<close>

fun expo_search :: "real \<Rightarrow> nat \<Rightarrow> int" where
  "expo_search a 0 = - 126"
| "expo_search a (Suc n) =
     (if power_int 2 (int (Suc n) - 126) \<le> a then int (Suc n) - 126 else expo_search a n)"

definition expo32 :: "real \<Rightarrow> int" where
  "expo32 x = expo_search \<bar>x\<bar> 253"

text \<open>
  Rounding to binary32 (NumPy \<open>float32\<close>): the nearest number with 24 significant
  bits in the binade of \<open>x\<close>, a tie going to the even significand. Overflow to infinity
  is left out (beyond the largest finite number the spacing of the highest binade is
  kept); no value of the pipeline comes near it.
\<close>

definition fl32 :: "real \<Rightarrow> real" where
  "fl32 x =
     (if x = 0 then 0
      else let u = power_int 2 (expo32 x - 23)
           in of_int (round_even (x / u)) * u)"

text \<open>
  What the statements below assume of the rounding \<open>fl\<close> of the format of a buffer: it
  is monotone, and it leaves unchanged every multiple of \<open>1/256\<close> up to 65536 in
  absolute value. Binary32 (\<open>fl32\<close>, lemma \<open>float_rounding_fl32\<close>) and binary64 round
  this way; so does exact arithmetic.
\<close>

definition float_rounding :: "(real \<Rightarrow> real) \<Rightarrow> bool" where
  "float_rounding fl =
     ((\<forall>x y. x \<le> y \<longrightarrow> fl x \<le> fl y)
      \<and> (\<forall>k::int. \<bar>k\<bar> \<le> 2 ^ 24 \<longrightarrow> fl (of_int k / 256) = of_int k / 256))"

subsection \<open>\<open>save_as_raw\<close>: quantisation\<close>

text \<open>
  \<open>(audio_data * 32767).astype(np.int16)\<close>. The product is computed in the arithmetic
  of the buffer, so it is rounded to the format of the buffer (\<open>fl\<close>) before it is
  converted. The conversion of a float to an integer type discards the fractional part
  (rounds toward zero). For a value outside the 16-bit range the conversion is a C cast
  whose result the platform decides; the model takes the low 16 bits of the truncated
  value, which is what the usual platforms give for a value within the 32-bit range.
\<close>

definition trunc_toward_zero :: "real \<Rightarrow> int" where
  "trunc_toward_zero x = (if 0 \<le> x then \<lfloor>x\<rfloor> else \<lceil>x\<rceil>)"

definition astype_int16 :: "real \<Rightarrow> 16 word" where
  "astype_int16 x = word_of_int (trunc_toward_zero x)"

text \<open>The bytes written to the raw file, and the returned size in bytes.\<close>

definition save_as_raw :: "(real \<Rightarrow> real) \<Rightarrow> real list \<Rightarrow> 8 word list \<times> nat" where
  "save_as_raw fl audio_data =
     (let audio_int16 = map (\<lambda>x. astype_int16 (fl (x * 32767))) audio_data
      in (tobytes audio_int16, length audio_int16 * 2))"

text \<open>
  The specification's quantisation, for comparison with \<open>save_as_raw\<close>: section 4.4
  asks for \<open>round(sample * 32767)\<close> clamped to the signed 16-bit range.
\<close>

definition spec_quantize :: "real \<Rightarrow> int" where
  "spec_quantize x = max (- 32768) (min 32767 (round (x * 32767)))"

subsection \<open>The audio transformations\<close>

text \<open>\<open>np.max\<close> raises \<open>ValueError\<close> on an empty array.\<close>

definition np_max :: "real list \<Rightarrow> error + real" where
  "np_max xs = (case xs of [] \<Rightarrow> Inl ValueError | x # rest \<Rightarrow> Inr (fold max rest x))"

text \<open>
  \<open>np.linspace(start, stop, num)\<close> (NumPy, not part of the repository): \<open>num\<close>
  evenly spaced values from \<open>start\<close> to \<open>stop\<close> inclusive, with step
  \<open>(stop - start) / (num - 1)\<close>; a single value \<open>start\<close> when \<open>num = 1\<close>, none
  when \<open>num = 0\<close>.
\<close>

definition linspace :: "real \<Rightarrow> real \<Rightarrow> nat \<Rightarrow> real list" where
  "linspace start stop num =
     (if num = 1 then [start]
      else map (\<lambda>i. start + real i * ((stop - start) / real (num - 1))) [0..<num])"

definition trim_silence :: "real list \<Rightarrow> real \<Rightarrow> error + real list" where
  "trim_silence audio_data threshold =
     (let abs_audio = map abs audio_data in
      ebind (np_max abs_audio) (\<lambda>max_val.
        let threshold_val = max_val * threshold;
            non_silent = filter (\<lambda>i. abs_audio ! i > threshold_val) [0..<length abs_audio]
        in if length non_silent = 0 then Inr audio_data
           else
             let start = max 0 (int (hd non_silent) - 100);
                 end = min (int (length audio_data)) (int (last non_silent) + 4410)
             in Inr (drop (nat start) (take (nat end) audio_data))))"

text \<open>
  \<open>resample_audio\<close>: the resampler is \<open>scipy.signal.resample\<close>, taken as a
  parameter; \<open>None\<close> stands for SciPy not being installed (the \<open>ImportError\<close> branch).
\<close>

definition resample_audio ::
    "(real list \<Rightarrow> nat \<Rightarrow> real list) option \<Rightarrow> real list \<Rightarrow> nat \<Rightarrow> nat \<Rightarrow> error + real list" where
  "resample_audio scipy audio_data orig_rate target_rate =
     (if orig_rate = target_rate then Inr audio_data
      else
        (case scipy of
           None \<Rightarrow> Inr audio_data
         | Some resample \<Rightarrow>
             if orig_rate = 0 then Inl ZeroDivisionError
             else
               (let num_samples = length audio_data * target_rate div orig_rate
                in Inr (resample audio_data num_samples))))"

text \<open>
  \<open>convert_to_mono\<close>: \<open>reshape(-1, num_channels)\<close> raises \<open>ValueError\<close> when the
  length is not a multiple of the channel count; the mean is taken over each frame.
\<close>

definition convert_to_mono :: "real list \<Rightarrow> nat \<Rightarrow> error + real list" where
  "convert_to_mono audio_data num_channels =
     (if num_channels = 1 then Inr audio_data
      else if num_channels = 0 \<or> length audio_data mod num_channels \<noteq> 0 then Inl ValueError
      else Inr (map (\<lambda>k. sum_list (take num_channels (drop (k * num_channels) audio_data))
                          / real num_channels)
                  [0..<length audio_data div num_channels]))"

definition normalize_audio :: "real list \<Rightarrow> real \<Rightarrow> error + real list" where
  "normalize_audio audio_data target_peak =
     ebind (np_max (map abs audio_data)) (\<lambda>max_val.
       if max_val > 0 then Inr (map (\<lambda>x. x * (target_peak / max_val)) audio_data)
       else Inr audio_data)"

text \<open>
  \<open>normalize_audio\<close> as floating-point arithmetic computes it. The scale factor
  \<open>target_peak / max_val\<close> is a floating-point number, \<open>fl_scale\<close> of the exact
  quotient: how the quotient of the Python float \<open>0.9\<close> and a \<open>float32\<close> peak is
  rounded depends on the version of NumPy (a binary64 quotient cast to binary32, or the
  binary32 quotient of the rounded \<open>0.9\<close> and the peak). Every product of a sample and
  the scale factor is rounded to the format of the buffer (\<open>fl\<close>). With no rounding at
  all this is \<open>normalize_audio\<close> (lemma \<open>normalize_audio_fl_exact\<close>).
\<close>

definition normalize_audio_fl ::
    "(real \<Rightarrow> real) \<Rightarrow> (real \<Rightarrow> real) \<Rightarrow> real list \<Rightarrow> real \<Rightarrow> error + real list" where
  "normalize_audio_fl fl fl_scale audio_data target_peak =
     ebind (np_max (map abs audio_data)) (\<lambda>max_val.
       if max_val > 0
       then Inr (map (\<lambda>x. fl (x * fl_scale (target_peak / max_val))) audio_data)
       else Inr audio_data)"

text \<open>
  \<open>audio_data[:fade_samples] *= fade\<close>. The array is updated in place and returned;
  the model returns the updated buffer.
\<close>

definition apply_fade_in :: "real list \<Rightarrow> nat \<Rightarrow> real list" where
  "apply_fade_in audio_data fade_samples0 =
     (let fade_samples = (if length audio_data < fade_samples0 then length audio_data
                          else fade_samples0);
          fade = linspace 0 1 fade_samples
      in map2 (*) (take fade_samples audio_data) fade @ drop fade_samples audio_data)"

text \<open>
  \<open>audio_data[-fade_samples:] *= fade\<close>. With \<open>fade_samples = 0\<close> the slice
  \<open>audio_data[-0:]\<close> is the whole array, and multiplying a non-empty array by the empty
  ramp raises \<open>ValueError\<close> (shapes do not broadcast).
\<close>

definition apply_fade_out :: "real list \<Rightarrow> nat \<Rightarrow> error + real list" where
  "apply_fade_out audio_data fade_samples0 =
     (let fade_samples = (if length audio_data < fade_samples0 then length audio_data
                          else fade_samples0);
          fade = linspace 1 0 fade_samples
      in if fade_samples = 0 then (if audio_data = [] then Inr audio_data else Inl ValueError)
         else Inr (take (length audio_data - fade_samples) audio_data
                   @ map2 (*) (drop (length audio_data - fade_samples) audio_data) fade))"

subsection \<open>\<open>process_wav_to_raw\<close>\<close>

text \<open>What \<open>wave.open\<close> gives for one input file.\<close>

record wav_file =
  nchannels :: nat
  sampwidth :: nat
  framerate :: nat
  frames :: "8 word list"

text \<open>
  \<open>np.frombuffer(audio_bytes, dtype=np.int16)\<close> raises \<open>ValueError\<close> when the buffer
  size is not a multiple of the element size.
\<close>

definition frombuffer_int16 :: "8 word list \<Rightarrow> error + int list" where
  "frombuffer_int16 b = (if odd (length b) then Inl ValueError else Inr (unpack_pairs b))"

text \<open>
  The transformations that \<open>process_wav_to_raw\<close> applies to the decoded buffer,
  in its order: mono, resample to 44100 Hz, trim, fade in over 882 samples, fade out over
  2205 samples, normalise (default target peak 0.9). The progress lines printed in
  between read the first and last sample of a buffer that is not empty at that point
  (trimming has returned), so they add no failure of their own.

  \<open>faded_buffer\<close> is the buffer that reaches \<open>normalize_audio\<close>, after the first five
  transformations; \<open>normalizer_chain\<close> is the whole chain, its last stage taken with
  its rounding.
\<close>

definition faded_buffer ::
    "(real list \<Rightarrow> nat \<Rightarrow> real list) option \<Rightarrow> nat \<Rightarrow> nat \<Rightarrow> real list \<Rightarrow> error + real list" where
  "faded_buffer scipy num_channels sample_rate audio_data0 =
     ebind (convert_to_mono audio_data0 num_channels) (\<lambda>audio_data1.
     ebind (resample_audio scipy audio_data1 sample_rate 44100) (\<lambda>audio_data2.
     ebind (trim_silence audio_data2 (1 / 100)) (\<lambda>audio_data3.
     apply_fade_out (apply_fade_in audio_data3 882) 2205)))"

definition normalizer_chain ::
    "(real \<Rightarrow> real) \<Rightarrow> (real \<Rightarrow> real) \<Rightarrow> (real list \<Rightarrow> nat \<Rightarrow> real list) option
       \<Rightarrow> nat \<Rightarrow> nat \<Rightarrow> real list \<Rightarrow> error + real list" where
  "normalizer_chain fl fl_scale scipy num_channels sample_rate audio_data0 =
     ebind (faded_buffer scipy num_channels sample_rate audio_data0) (\<lambda>audio_data5.
     normalize_audio_fl fl fl_scale audio_data5 (9 / 10))"

text \<open>
  The result of \<open>process_wav_to_raw\<close>: the files it writes (the raw file, the array
  length of the declaration, the word literals of the definition file) and the numbers it
  returns. \<open>None\<close> is the \<open>return None\<close> for an unsupported sample width.
\<close>

record asset =
  raw_file :: "8 word list"
  num_uint32 :: nat
  cpp_words :: "int list"
  size_bytes :: nat
  samples :: nat

definition process_wav_to_raw ::
    "(real \<Rightarrow> real) \<Rightarrow> (real \<Rightarrow> real) \<Rightarrow> (real list \<Rightarrow> nat \<Rightarrow> real list) option
       \<Rightarrow> wav_file \<Rightarrow> error + asset option" where
  "process_wav_to_raw fl fl_scale scipy wav =
     (if sampwidth wav \<noteq> 2 \<and> sampwidth wav \<noteq> 1 then Inr None
      else
        ebind (if sampwidth wav = 2
               then ebind (frombuffer_int16 (frames wav))
                      (\<lambda>v. Inr (map (\<lambda>s. real_of_int s / 32768) v))
               else Inr (map (\<lambda>b. (real_of_int (uint b) - 128) / 128) (frames wav)))
          (\<lambda>audio_data0.
        ebind (normalizer_chain fl fl_scale scipy (nchannels wav) (framerate wav) audio_data0)
          (\<lambda>audio_data.
        let raw = fst (save_as_raw fl audio_data) in
        ebind (generate_c_header raw) (\<lambda>(n, ws).
          Inr (Some \<lparr> raw_file = raw, num_uint32 = n, cpp_words = ws,
                       size_bytes = length audio_data * 2, samples = length audio_data \<rparr>)))))"

subsection \<open>The drum resolver of \<open>extract_drums_from_sf2\<close>\<close>

text \<open>
  An instrument bag of the SoundFont library: its key range (absent, a list, or an
  integer, the three shapes the source tests for) and its sample, if any.
\<close>

datatype key_range = KRNone | KRList "int list" | KRInt int

record sf2_sample =
  raw_sample_data :: "8 word list"
  sample_rate :: int

record inst_bag =
  key_range :: key_range
  sample :: "sf2_sample option"

text \<open>
  The bounds the source reads from a key range: \<open>None\<close> when the value is falsy
  (\<open>None\<close>, the empty list, the integer 0); a list of two elements gives them; any other
  non-empty list reaches \<open>key_range & 0xFF\<close> and raises \<open>TypeError\<close>; an integer holds
  the low key in its low byte and the high key in the next.
\<close>

definition key_bounds :: "key_range \<Rightarrow> error + (int \<times> int) option" where
  "key_bounds kr =
     (case kr of
        KRNone \<Rightarrow> Inr None
      | KRList l \<Rightarrow>
          if l = [] then Inr None
          else if length l = 2 then Inr (Some (l ! 0, l ! 1))
          else Inl TypeError
      | KRInt k \<Rightarrow>
          if k = 0 then Inr None
          else Inr (Some (k AND 0xFF, drop_bit 8 k AND 0xFF)))"

text \<open>
  The test of the inner loop, \<open>low_key <= note_num <= high_key\<close> on a truthy key range:
  the key range of the bag contains the note.
\<close>

definition covers :: "inst_bag \<Rightarrow> int \<Rightarrow> bool" where
  "covers inst_bag note_num =
     (case key_bounds (key_range inst_bag) of
        Inr (Some (low_key, high_key)) \<Rightarrow> low_key \<le> note_num \<and> note_num \<le> high_key
      | _ \<Rightarrow> False)"

text \<open>The inner loop \<open>for inst_bag in instrument.bags\<close>, with its \<open>break\<close>.\<close>

fun find_sample :: "inst_bag list \<Rightarrow> int \<Rightarrow> error + sf2_sample option" where
  "find_sample [] note_num = Inr None"
| "find_sample (inst_bag # bags) note_num =
     ebind (key_bounds (key_range inst_bag)) (\<lambda>kb.
       case kb of
         None \<Rightarrow> find_sample bags note_num
       | Some (low_key, high_key) \<Rightarrow>
           if low_key \<le> note_num \<and> note_num \<le> high_key then Inr (sample inst_bag)
           else find_sample bags note_num)"

text \<open>
  The body of \<open>if sample_obj:\<close> runs in a \<open>try\<close> whose handler prints the error and
  goes on with the next note, so the note is appended to \<open>extracted_samples\<close> only when
  every call of the body returns. Whether it does depends on the sample and on the file
  system: \<open>np.frombuffer\<close> raises on a buffer of odd size, \<open>setframerate\<close> on a rate
  that is not positive, the writing of the WAV header on a rate of \<open>2 ^ 31\<close> or more,
  \<open>wave.open\<close> on a path that cannot be written. The model takes the outcome as a
  parameter: \<open>written note_num sample_obj\<close> holds when the body returns for that note
  and sample.

  The outer loop over the notes; the result lists, in order, the notes appended to
  \<open>extracted_samples\<close>, each with the sample written for it.
\<close>

fun extract_notes ::
    "(int \<Rightarrow> sf2_sample \<Rightarrow> bool) \<Rightarrow> inst_bag list \<Rightarrow> int list
       \<Rightarrow> error + (int \<times> sf2_sample) list" where
  "extract_notes written bags [] = Inr []"
| "extract_notes written bags (note_num # rest) =
     ebind (find_sample bags note_num) (\<lambda>sample_obj.
     ebind (extract_notes written bags rest) (\<lambda>extracted.
       case sample_obj of
         None \<Rightarrow> Inr extracted
       | Some s \<Rightarrow> if written note_num s then Inr ((note_num, s) # extracted)
                  else Inr extracted))"

definition extract_drums ::
    "(int \<Rightarrow> sf2_sample \<Rightarrow> bool) \<Rightarrow> inst_bag list \<Rightarrow> error + (int \<times> sf2_sample) list" where
  "extract_drums written bags = extract_notes written bags [27..87]"

subsection \<open>The directory input of \<open>main\<close>\<close>

text \<open>
  A directory is the list of its entry names, in the order the file system lists them.
  \<open>input_path.glob("*.wav")\<close> selects the names that end in \<open>.wav\<close>; matching is by
  character, as on a POSIX file system. \<open>sorted(wav_files)\<close> orders paths of one
  directory by their names, character by character in code-point order.
\<close>

definition glob_star :: "string \<Rightarrow> string \<Rightarrow> bool" where
  "glob_star ext name_str =
     (length ext \<le> length name_str \<and> drop (length name_str - length ext) name_str = ext)"

definition wav_files :: "string list \<Rightarrow> string list" where
  "wav_files dir = filter (glob_star ''.wav'') dir @ filter (glob_star ''.WAV'') dir"

definition sorted_wav_files :: "string list \<Rightarrow> string list" where
  "sorted_wav_files dir = sort (wav_files dir)"

text \<open>
  The specification's test, for comparison with \<open>wav_files\<close>: an extension that
  matches \<open>.wav\<close> whatever the case of its letters.
\<close>

definition lower_char :: "char \<Rightarrow> char" where
  "lower_char c =
     (if of_char (CHR ''A'') \<le> (of_char c :: nat) \<and> (of_char c :: nat) \<le> of_char (CHR ''Z'')
      then char_of (of_char c + (32 :: nat)) else c)"

definition spec_wav_match :: "string \<Rightarrow> bool" where
  "spec_wav_match name_str = glob_star ''.wav'' (map lower_char name_str)"

section \<open>Facts about the encoder\<close>

subsection \<open>Bytes of a 16-bit value\<close>

lemma uint_lo: "uint (ucast (w :: 16 word) :: 8 word) = uint w mod 256"
  by (simp add: unsigned_ucast_eq take_bit_eq_mod)

lemma uint_drop8: "uint (drop_bit 8 (w :: 16 word)) = uint w div 256"
  by (simp add: unsigned_drop_bit_eq drop_bit_eq_div uint_div_distrib)

lemma div256_small: "uint (w :: 16 word) div 256 mod 256 = uint w div 256"
proof -
  have "uint w < 65536" using uint_bounded[of w] by simp
  then have "uint w div 256 < 256" by simp
  moreover have "0 \<le> uint w div 256" by (simp add: div_int_pos_iff)
  ultimately show ?thesis by (rule_tac mod_pos_pos_trivial)
qed

lemma sint_16: "sint (w :: 16 word) = (if uint w \<ge> 32768 then uint w - 65536 else uint w)"
proof -
  have b: "0 \<le> uint w" "uint w < 65536" using uint_bounded[of w] by simp_all
  have m: "(uint w + 32768) mod 65536 = (if uint w \<ge> 32768 then uint w - 32768 else uint w + 32768)"
  proof (cases "uint w \<ge> 32768")
    case True
    have e: "uint w + 32768 = (uint w - 32768) + 65536" by arith
    have "(uint w + 32768) mod 65536 = ((uint w - 32768) + 65536) mod 65536" by (simp only: e)
    also have "\<dots> = (uint w - 32768) mod 65536" by (rule mod_add_self2)
    also have "\<dots> = uint w - 32768" using True b by (intro mod_pos_pos_trivial) simp_all
    finally show ?thesis using True by simp
  next
    case False
    then have "(uint w + 32768) mod 65536 = uint w + 32768"
      using b by (intro mod_pos_pos_trivial) simp_all
    then show ?thesis using False by simp
  qed
  have "sint w = (uint w + 32768) mod 65536 - 32768"
    by (simp add: sint_uint signed_take_bit_eq_take_bit_shift take_bit_eq_mod)
  then show ?thesis unfolding m by simp
qed

lemma le_int16_tobytes: "le_int16 (ucast w) (ucast (drop_bit 8 w)) = sint (w :: 16 word)"
proof -
  have "uint w mod 256 + 256 * (uint w div 256) = uint w" by simp
  then show ?thesis
    unfolding le_int16_def uint_lo uint_drop8 div256_small sint_16 Let_def by simp
qed

lemma length_tobytes: "length (tobytes q) = 2 * length q"
  by (induction q) simp_all

lemma unpack_pairs_tobytes: "unpack_pairs (tobytes q) = map sint q"
  by (induction q) (simp_all add: le_int16_tobytes)

lemma struct_unpack_h_tobytes: "struct_unpack_h (tobytes q) = Inr (map sint q)"
  by (simp add: struct_unpack_h_def length_tobytes unpack_pairs_tobytes)

subsection \<open>Bit fields of Python integers\<close>

lemma and_FFFF: "(a :: int) AND 0xFFFF = take_bit 16 a"
proof -
  have "(0xFFFF :: int) = mask 16" by (simp add: mask_eq_exp_minus_1)
  then show ?thesis by (simp only: take_bit_eq_mask)
qed

lemma and_FFFFFF: "(a :: int) AND 0xFFFFFF = take_bit 24 a"
proof -
  have "(0xFFFFFF :: int) = mask 24" by (simp add: mask_eq_exp_minus_1)
  then show ?thesis by (simp only: take_bit_eq_mask)
qed

lemma take_bit_packed: "take_bit 16 (take_bit 16 (a::int) OR push_bit 16 b) = take_bit 16 a"
  by (rule bit_eqI) (auto simp: bit_simps)

lemma drop_bit_packed: "drop_bit 16 (take_bit 16 (a::int) OR push_bit 16 b) = b"
  by (rule bit_eqI) (auto simp: bit_simps)

lemma take_bit_sint16: "take_bit 16 (sint (w :: 16 word)) = uint w"
  by (simp add: uint_sint)

lemma drop_bit_format: "drop_bit 24 (push_bit 24 (a::int) OR take_bit 24 b) = a"
  by (rule bit_eqI) (auto simp: bit_simps)

lemma take_bit_format: "take_bit 24 (push_bit 24 (a::int) OR take_bit 24 b) = take_bit 24 b"
  by (rule bit_eqI) (auto simp: bit_simps)

subsection \<open>The packing loop\<close>

lemma length_pack_loop: "length (pack_loop s i) = (length s - i + 1) div 2"
proof (induction s i rule: pack_loop.induct)
  case (1 samples i)
  show ?case
  proof (cases "i < length samples")
    case True
    with 1 show ?thesis by (subst pack_loop.simps) (simp add: Let_def, arith)
  next
    case False
    then show ?thesis by (subst pack_loop.simps) simp
  qed
qed

lemma nth_pack_loop:
  "i + 2 * j < length s \<Longrightarrow>
   pack_loop s i ! j =
     (take_bit 16 (s ! (i + 2 * j))
        OR push_bit 16 (if i + 2 * j + 1 < length s then take_bit 16 (s ! (i + 2 * j + 1)) else 0))"
proof (induction s i arbitrary: j rule: pack_loop.induct)
  case (1 samples i)
  from 1(2) have lt: "i < length samples" by simp
  show ?case
  proof (cases j)
    case 0
    with lt show ?thesis by (subst pack_loop.simps) (simp add: Let_def and_FFFF)
  next
    case (Suc k)
    with 1(2) have "i + 2 + 2 * k < length samples" by simp
    from 1(1)[OF lt refl refl refl this] Suc lt show ?thesis
      by (subst pack_loop.simps) (simp add: Let_def)
  qed
qed

lemma generate_c_header_tobytes:
  "generate_c_header (tobytes q) =
     Inr (1 + (length q + 1) div 2, format_word (length q) # pack_loop (map sint q) 0)"
  by (simp add: generate_c_header_def struct_unpack_h_tobytes length_tobytes Let_def)

subsection \<open>Decoding what the loop packs\<close>

lemma s16_uint: "s16 (uint (w :: 16 word)) = sint w"
  by (simp add: s16_def sint_16)

lemma decode_packed:
  "[s16 ((take_bit 16 a OR push_bit 16 b) AND 0xFFFF),
    s16 (drop_bit 16 (take_bit 16 a OR push_bit 16 b) AND 0xFFFF)]
   = [s16 (take_bit 16 a), s16 (take_bit 16 b)]"
  by (simp only: and_FFFF take_bit_packed drop_bit_packed)

lemma s16_take_sint: "s16 (take_bit 16 (sint (w :: 16 word))) = sint w"
  by (simp only: take_bit_sint16 s16_uint)

lemma s16_take_0: "s16 (take_bit 16 0) = 0"
  by (simp add: s16_def)

lemma decode_pack_loop:
  "smp = map sint (q :: 16 word list) \<Longrightarrow>
   concat (map (\<lambda>w. [s16 (w AND 0xFFFF), s16 (drop_bit 16 w AND 0xFFFF)]) (pack_loop smp i))
     = drop i smp @ (if i < length smp \<and> odd (length smp - i) then [0] else [])"
proof (induction smp i rule: pack_loop.induct)
  case (1 smp i)
  let ?f = "\<lambda>w::int. [s16 (w AND 0xFFFF), s16 (drop_bit 16 w AND 0xFFFF)]"
  show ?case
  proof (cases "i < length smp")
    case False
    then show ?thesis by (subst pack_loop.simps) simp
  next
    case True
    note IH = 1(1)[OF True refl refl refl 1(2)]
    from True 1(2) have si: "smp ! i = sint (q ! i)" by simp
    show ?thesis
    proof (cases "i + 1 < length smp")
      case True
      with 1(2) have si1: "smp ! (i + 1) = sint (q ! (i + 1))" by simp
      have d: "drop i smp = [smp ! i, smp ! (i + 1)] @ drop (i + 2) smp"
        using True by (simp add: Cons_nth_drop_Suc)
      have par: "(i + 2 < length smp \<and> odd (length smp - (i + 2)))
                 = (i < length smp \<and> odd (length smp - i))"
      proof -
        from True obtain k where k: "length smp = i + 2 + k"
          using less_iff_Suc_add[of "i + 1" "length smp"] by auto
        show ?thesis unfolding k by (cases "k = 0") auto
      qed
      have pl: "pack_loop smp i =
          (take_bit 16 (smp ! i) OR push_bit 16 (take_bit 16 (smp ! (i + 1))))
            # pack_loop smp (i + 2)"
        using True by (subst pack_loop.simps) (simp add: Let_def and_FFFF)
      have dec: "?f (take_bit 16 (smp ! i) OR push_bit 16 (take_bit 16 (smp ! (i + 1))))
          = [smp ! i, smp ! (i + 1)]"
        by (simp only: decode_packed take_bit_take_bit min.idem si si1 s16_take_sint)
      have "concat (map ?f (pack_loop smp i))
          = [smp ! i, smp ! (i + 1)] @ concat (map ?f (pack_loop smp (i + 2)))"
        by (simp only: pl list.map concat.simps dec)
      also have "\<dots> = ([smp ! i, smp ! (i + 1)] @ drop (i + 2) smp)
          @ (if i < length smp \<and> odd (length smp - i) then [0] else [])"
        by (simp only: IH par append_assoc)
      finally show ?thesis by (simp only: d)
    next
      case False
      with True have e: "length smp = i + 1" by simp
      have d: "drop i smp = [smp ! i]"
        using e by (metis Cons_nth_drop_Suc True drop_all Suc_eq_plus1 le_refl)
      have pl: "pack_loop smp i = [take_bit 16 (smp ! i) OR push_bit 16 (take_bit 16 0)]"
        using e by (subst pack_loop.simps, subst pack_loop.simps) (simp add: Let_def and_FFFF)
      have dec: "?f (take_bit 16 (smp ! i) OR push_bit 16 (take_bit 16 0)) = [smp ! i, 0]"
        by (simp only: decode_packed take_bit_take_bit min.idem si s16_take_sint s16_take_0)
      have "concat (map ?f (pack_loop smp i)) = [smp ! i, 0]"
        by (simp only: pl list.map concat.simps dec append_Nil2)
      moreover have "i < length smp \<and> odd (length smp - i)" using e by simp
      ultimately show ?thesis by (simp add: d)
    qed
  qed
qed

lemma decode_generate:
  "decode_spec (format_word (length q) # pack_loop (map sint q) 0)
     = take (length q mod 2 ^ 24) (map sint (q :: 16 word list))"
proof -
  have "format_word (length q) AND 0xFFFFFF = int (length q) mod 2 ^ 24"
    unfolding format_word_def and_FFFFFF take_bit_format by (simp add: take_bit_eq_mod)
  also have "\<dots> = int (length q mod 2 ^ 24)" by (simp add: zmod_int)
  finally have c: "nat (format_word (length q) AND 0xFFFFFF) = length q mod 2 ^ 24" by simp
  have le: "length q mod 2 ^ 24 \<le> length (map sint q)" by simp
  show ?thesis
    unfolding decode_spec_def list.case c decode_pack_loop[OF refl]
    using le by simp
qed

lemma roundtrip_general:
  "ebind (generate_c_header (tobytes q)) (\<lambda>(n, ws). Inr (decode_spec ws))
     = (Inr (take (length q mod 2 ^ 24) (map sint q)) :: error + int list)"
  by (simp only: generate_c_header_tobytes ebind.simps prod.case decode_generate)

subsection \<open>Rounding to binary32\<close>

lemma round_even_of_int: "round_even (of_int k) = k"
  by (simp add: round_even_def)

lemma round_even_floor: "\<lfloor>x\<rfloor> \<le> round_even x" "round_even x \<le> \<lfloor>x\<rfloor> + 1"
  by (simp_all add: round_even_def Let_def)

lemma round_even_mono:
  assumes "x \<le> y"
  shows "round_even x \<le> round_even y"
proof (cases "\<lfloor>x\<rfloor> = \<lfloor>y\<rfloor>")
  case True
  from assms have "x - of_int \<lfloor>y\<rfloor> \<le> y - of_int \<lfloor>y\<rfloor>" by simp
  then show ?thesis unfolding round_even_def Let_def True by auto
next
  case False
  with assms have "\<lfloor>x\<rfloor> < \<lfloor>y\<rfloor>" using floor_mono[OF assms] by linarith
  then have "round_even x \<le> \<lfloor>y\<rfloor>" using round_even_floor(2)[of x] by linarith
  then show ?thesis using round_even_floor(1)[of y] by linarith
qed

lemma floor_minus_nonint:
  assumes "x \<noteq> of_int \<lfloor>x\<rfloor>"
  shows "\<lfloor>- x\<rfloor> = - \<lfloor>x\<rfloor> - 1"
proof (rule floor_unique)
  have "of_int \<lfloor>x\<rfloor> \<le> x" by simp
  moreover from assms have "of_int \<lfloor>x\<rfloor> \<noteq> x" by (rule not_sym)
  ultimately have lt: "of_int \<lfloor>x\<rfloor> < x" by (rule le_neq_trans)
  have up: "x < of_int \<lfloor>x\<rfloor> + 1" by linarith
  from up show "of_int (- \<lfloor>x\<rfloor> - 1) \<le> - x" by simp
  from lt show "- x < of_int (- \<lfloor>x\<rfloor> - 1) + 1" by simp
qed

lemma round_even_minus: "round_even (- x) = - round_even x"
proof (cases "x = of_int \<lfloor>x\<rfloor>")
  case True
  then obtain k where "x = of_int k" ..
  then have "round_even (- x) = round_even (of_int (- k))" by simp
  also have "\<dots> = - k" by (rule round_even_of_int)
  finally show ?thesis using \<open>x = of_int k\<close> by (simp add: round_even_of_int)
next
  case False
  then have f: "\<lfloor>- x\<rfloor> = - \<lfloor>x\<rfloor> - 1" by (rule floor_minus_nonint)
  have r: "- x - of_int (- \<lfloor>x\<rfloor> - 1) = 1 - (x - of_int \<lfloor>x\<rfloor>)" by simp
  have b: "0 \<le> x - of_int \<lfloor>x\<rfloor>" "x - of_int \<lfloor>x\<rfloor> < 1" by linarith+
  show ?thesis
    unfolding round_even_def Let_def f r by (auto simp: field_simps)
qed

lemma round_even_near: "\<bar>of_int (round_even x) - x\<bar> \<le> 1 / 2"
proof -
  have b: "0 \<le> x - of_int \<lfloor>x\<rfloor>" "x - of_int \<lfloor>x\<rfloor> < 1" by linarith+
  then show ?thesis unfolding round_even_def Let_def by (auto simp: abs_le_iff)
qed

lemma fl32_alt:
  "fl32 x = (if x = 0 then 0
             else of_int (round_even (x / power_int 2 (expo32 x - 23))) * power_int 2 (expo32 x - 23))"
  by (simp add: fl32_def Let_def)

lemma pw_split: "power_int (2::real) (a + b) = power_int 2 a * power_int 2 b"
  by (rule power_int_add) simp

lemma pw_24: "power_int (2::real) (e + 1) = power_int 2 (e - 23) * 2 ^ 24"
proof -
  have "e + 1 = (e - 23) + 24" by simp
  then have "power_int (2::real) (e + 1) = power_int 2 ((e - 23) + 24)" by (rule arg_cong)
  also have "\<dots> = power_int 2 (e - 23) * power_int 2 24" by (rule pw_split)
  finally show ?thesis by simp
qed

lemma pw_23: "power_int (2::real) e = power_int 2 (e - 23) * 2 ^ 23"
proof -
  have "e = (e - 23) + 23" by simp
  then have "power_int (2::real) e = power_int 2 ((e - 23) + 23)" by (rule arg_cong)
  also have "\<dots> = power_int 2 (e - 23) * power_int 2 23" by (rule pw_split)
  finally show ?thesis by simp
qed

lemma expo_search_range: "- 126 \<le> expo_search a n \<and> expo_search a n \<le> int n - 126"
  by (induction n) auto

lemma expo_search_lower: "- 126 < expo_search a n \<Longrightarrow> power_int 2 (expo_search a n) \<le> a"
  by (induction n) (auto split: if_splits)

lemma expo_search_upper:
  "expo_search a n < int n - 126 \<Longrightarrow> a < power_int 2 (expo_search a n + 1)"
proof (induction n)
  case 0
  then show ?case by simp
next
  case (Suc n)
  show ?case
  proof (cases "power_int 2 (int (Suc n) - 126) \<le> a")
    case True
    with Suc.prems show ?thesis by simp
  next
    case False
    then have lt: "a < power_int 2 (int (Suc n) - 126)" by simp
    from False have e: "expo_search a (Suc n) = expo_search a n" by simp
    show ?thesis
    proof (cases "expo_search a n < int n - 126")
      case True
      from Suc.IH[OF this] show ?thesis by (simp only: e)
    next
      case False
      with expo_search_range[of a n] have "expo_search a n = int n - 126" by simp
      then have "expo_search a n + 1 = int (Suc n) - 126" by simp
      with lt show ?thesis by (simp only: e)
    qed
  qed
qed

lemma expo_search_mono: "a \<le> b \<Longrightarrow> expo_search a n \<le> expo_search b n"
proof (induction n)
  case 0
  then show ?case by simp
next
  case (Suc n)
  show ?case
  proof (cases "power_int 2 (int (Suc n) - 126) \<le> b")
    case True
    then have "expo_search b (Suc n) = int (Suc n) - 126" by simp
    with expo_search_range[of a "Suc n"] show ?thesis by simp
  next
    case False
    with Suc.prems have "\<not> power_int 2 (int (Suc n) - 126) \<le> a" by simp
    with False Suc.IH[OF Suc.prems] show ?thesis by simp
  qed
qed

lemma expo32_range: "- 126 \<le> expo32 x" "expo32 x \<le> 127"
  using expo_search_range[of "\<bar>x\<bar>" 253] by (simp_all add: expo32_def)

lemma expo32_lower:
  assumes "- 126 < expo32 x"
  shows "power_int 2 (expo32 x) \<le> \<bar>x\<bar>"
  using assms unfolding expo32_def by (rule expo_search_lower)

lemma expo32_upper:
  assumes "expo32 x < 127"
  shows "\<bar>x\<bar> < power_int 2 (expo32 x + 1)"
proof -
  from assms have "expo_search \<bar>x\<bar> 253 < int 253 - 126" by (simp add: expo32_def)
  then show ?thesis unfolding expo32_def by (rule expo_search_upper)
qed

lemma expo32_mono: "\<bar>x\<bar> \<le> \<bar>y\<bar> \<Longrightarrow> expo32 x \<le> expo32 y"
  unfolding expo32_def by (rule expo_search_mono)

lemma expo32_minus: "expo32 (- x) = expo32 x"
  by (simp add: expo32_def)

lemma expo32_eqI:
  assumes "power_int 2 e \<le> \<bar>x\<bar>" and "\<bar>x\<bar> < power_int 2 (e + 1)" and "- 126 \<le> e" and "e \<le> 127"
  shows "expo32 x = e"
proof (rule ccontr)
  assume ne: "expo32 x \<noteq> e"
  show False
  proof (cases "expo32 x < e")
    case True
    with assms(4) have "expo32 x < 127" by simp
    from expo32_upper[OF this] have "\<bar>x\<bar> < power_int 2 (expo32 x + 1)" .
    also have "power_int (2::real) (expo32 x + 1) \<le> power_int 2 e"
      using True by (intro power_int_increasing) simp_all
    finally show False using assms(1) by simp
  next
    case False
    with ne have gt: "e + 1 \<le> expo32 x" by simp
    with assms(3) have "- 126 < expo32 x" by simp
    from expo32_lower[OF this] have "power_int 2 (expo32 x) \<le> \<bar>x\<bar>" .
    moreover have "power_int (2::real) (e + 1) \<le> power_int 2 (expo32 x)"
      using gt by (intro power_int_increasing) simp_all
    ultimately show False using assms(2) by simp
  qed
qed

lemma scaled_upper:
  assumes "0 < x" and "expo32 x < 127"
  shows "x / power_int 2 (expo32 x - 23) < 2 ^ 24"
proof -
  have u: "0 < power_int (2::real) (expo32 x - 23)" by simp
  from expo32_upper[OF assms(2)] assms(1) have "x < power_int 2 (expo32 x - 23) * 2 ^ 24"
    by (simp only: pw_24 abs_of_pos)
  then show ?thesis using u by (simp add: field_simps)
qed

lemma scaled_lower:
  assumes "0 < x" and "- 126 < expo32 x"
  shows "2 ^ 23 \<le> x / power_int 2 (expo32 x - 23)"
proof -
  have u: "0 < power_int (2::real) (expo32 x - 23)" by simp
  from expo32_lower[OF assms(2)] assms(1) have "power_int 2 (expo32 x) \<le> x" by simp
  then have "power_int 2 (expo32 x - 23) * 2 ^ 23 \<le> x"
    by (subst (asm) pw_23)
  then show ?thesis using u by (simp add: field_simps)
qed

lemma fl32_upper:
  assumes "0 < x" and "expo32 x < 127"
  shows "fl32 x \<le> power_int 2 (expo32 x + 1)"
proof -
  let ?u = "power_int (2::real) (expo32 x - 23)"
  have "round_even (x / ?u) \<le> round_even (of_int (2 ^ 24))"
    using scaled_upper[OF assms] by (intro round_even_mono) simp
  then have "round_even (x / ?u) \<le> 2 ^ 24" by (simp only: round_even_of_int)
  then have "real_of_int (round_even (x / ?u)) \<le> real_of_int (2 ^ 24)"
    by (rule of_int_le_iff[THEN iffD2])
  then have "real_of_int (round_even (x / ?u)) \<le> 2 ^ 24" by simp
  then have "real_of_int (round_even (x / ?u)) * ?u \<le> 2 ^ 24 * ?u"
    by (intro mult_right_mono) simp_all
  also have "2 ^ 24 * ?u = power_int 2 (expo32 x + 1)"
    by (simp only: pw_24 mult.commute)
  finally show ?thesis using assms(1) by (simp add: fl32_alt)
qed

lemma fl32_lower:
  assumes "0 < x" and "- 126 < expo32 x"
  shows "power_int 2 (expo32 x) \<le> fl32 x"
proof -
  let ?u = "power_int (2::real) (expo32 x - 23)"
  have "round_even (of_int (2 ^ 23)) \<le> round_even (x / ?u)"
    using scaled_lower[OF assms] by (intro round_even_mono) simp
  then have "2 ^ 23 \<le> round_even (x / ?u)" by (simp only: round_even_of_int)
  then have "real_of_int (2 ^ 23) \<le> real_of_int (round_even (x / ?u))"
    by (rule of_int_le_iff[THEN iffD2])
  then have "2 ^ 23 \<le> real_of_int (round_even (x / ?u))" by simp
  then have m: "2 ^ 23 * ?u \<le> real_of_int (round_even (x / ?u)) * ?u"
    by (intro mult_right_mono) simp_all
  have "power_int 2 (expo32 x) = 2 ^ 23 * ?u"
    by (subst pw_23) (rule mult.commute)
  also note m
  also have "real_of_int (round_even (x / ?u)) * ?u = fl32 x"
    using assms(1) by (simp add: fl32_alt)
  finally show ?thesis .
qed

lemma fl32_mono_pos:
  assumes "0 < x" and "x \<le> y"
  shows "fl32 x \<le> fl32 y"
proof (cases "expo32 x = expo32 y")
  case True
  let ?u = "power_int (2::real) (expo32 y - 23)"
  have u: "0 < ?u" by simp
  from assms(2) have "x / ?u \<le> y / ?u" using u by (simp add: divide_right_mono)
  then have "round_even (x / ?u) \<le> round_even (y / ?u)" by (rule round_even_mono)
  then have "real_of_int (round_even (x / ?u)) * ?u \<le> real_of_int (round_even (y / ?u)) * ?u"
    using u by (intro mult_right_mono) simp_all
  with assms True show ?thesis by (simp add: fl32_alt)
next
  case False
  from assms have "\<bar>x\<bar> \<le> \<bar>y\<bar>" by simp
  from expo32_mono[OF this] False have lt: "expo32 x < expo32 y" by simp
  have ypos: "0 < y" using assms by simp
  from lt expo32_range(1)[of x] have "- 126 < expo32 y" by simp
  from fl32_lower[OF ypos this] have "power_int 2 (expo32 y) \<le> fl32 y" .
  moreover have "power_int (2::real) (expo32 x + 1) \<le> power_int 2 (expo32 y)"
    using lt by (intro power_int_increasing) simp_all
  moreover from lt expo32_range(2)[of y] have "expo32 x < 127" by simp
  ultimately show ?thesis using fl32_upper[OF assms(1)] by linarith
qed

lemma fl32_minus: "fl32 (- x) = - fl32 x"
  by (simp add: fl32_alt expo32_minus round_even_minus)

lemma fl32_nonneg:
  assumes "0 \<le> x"
  shows "0 \<le> fl32 x"
proof (cases "x = 0")
  case True
  then show ?thesis by (simp add: fl32_def)
next
  case False
  let ?u = "power_int (2::real) (expo32 x - 23)"
  from False assms have "0 \<le> x / ?u" by simp
  then have "round_even (of_int 0) \<le> round_even (x / ?u)" by (intro round_even_mono) simp
  then have "0 \<le> round_even (x / ?u)" by (simp only: round_even_of_int)
  then show ?thesis using False by (simp add: fl32_alt)
qed

lemma fl32_mono:
  assumes "x \<le> y"
  shows "fl32 x \<le> fl32 y"
proof -
  consider "0 < x" | "x \<le> 0" "0 \<le> y" | "y < 0" by linarith
  then show ?thesis
  proof cases
    case 1
    then show ?thesis using assms by (rule fl32_mono_pos)
  next
    case 2
    from 2(1) have "0 \<le> fl32 (- x)" by (intro fl32_nonneg) simp
    then have "fl32 x \<le> 0" by (simp add: fl32_minus)
    with fl32_nonneg[OF 2(2)] show ?thesis by linarith
  next
    case 3
    then have "0 < - y" "- y \<le> - x" using assms by simp_all
    then have "fl32 (- y) \<le> fl32 (- x)" by (rule fl32_mono_pos)
    then show ?thesis by (simp add: fl32_minus)
  qed
qed

lemma fl32_exact_if_integral:
  assumes "x / power_int 2 (expo32 x - 23) = of_int j"
  shows "fl32 x = x"
proof (cases "x = 0")
  case True
  then show ?thesis by (simp add: fl32_def)
next
  case False
  let ?u = "power_int (2::real) (expo32 x - 23)"
  have u: "?u \<noteq> 0" by simp
  have "fl32 x = of_int (round_even (of_int j)) * ?u"
    using False assms by (simp add: fl32_alt)
  also have "\<dots> = of_int j * ?u" by (simp only: round_even_of_int)
  also have "\<dots> = x / ?u * ?u" by (simp only: assms)
  also have "\<dots> = x" using u by simp
  finally show ?thesis .
qed

lemma expo32_65536: "expo32 65536 = 16"
  by (rule expo32_eqI) simp_all

lemma fl32_grid:
  assumes "\<bar>k\<bar> \<le> 2 ^ 24"
  shows "fl32 (of_int k / 256) = of_int k / 256"
proof (cases "k = 0")
  case True
  then show ?thesis by (simp add: fl32_def)
next
  case False
  define x :: real where "x = of_int k / 256"
  let ?e = "expo32 x"
  let ?u = "power_int (2::real) (?e - 23)"
  have xle: "\<bar>x\<bar> \<le> 65536"
  proof -
    from assms have "real_of_int \<bar>k\<bar> \<le> real_of_int (2 ^ 24)" by (rule of_int_le_iff[THEN iffD2])
    then show ?thesis by (simp add: x_def)
  qed
  then have "\<bar>x\<bar> \<le> \<bar>65536 :: real\<bar>" by simp
  from expo32_mono[OF this] have e16: "?e \<le> 16" by (simp only: expo32_65536)
  have "\<exists>j. x / ?u = of_int j"
  proof (cases "?e \<le> 15")
    case True
    define n where "n = nat (15 - ?e)"
    have n: "int n = 15 - ?e" using True by (simp add: n_def)
    have "power_int (2::real) ((15 - ?e) + (?e - 23)) = power_int 2 (15 - ?e) * ?u"
      by (rule pw_split)
    moreover have "(15 - ?e) + (?e - 23) = - 8" by simp
    moreover have "power_int (2::real) (15 - ?e) = 2 ^ n"
      unfolding n[symmetric] by (rule power_int_of_nat)
    ultimately have "2 ^ n * ?u = power_int (2::real) (- 8)" by simp
    then have h: "2 ^ n * ?u = 1 / 256" by (simp add: power_int_minus)
    have "real_of_int k * 2 ^ n * ?u = real_of_int k * (2 ^ n * ?u)" by simp
    also have "\<dots> = x" unfolding h by (simp add: x_def)
    finally have "x = real_of_int k * 2 ^ n * ?u" by (rule sym)
    then have "x / ?u = real_of_int k * 2 ^ n * ?u / ?u" by (rule arg_cong)
    also have "\<dots> = real_of_int k * 2 ^ n" by simp
    finally have "x / ?u = of_int (k * 2 ^ n)" by simp
    then show ?thesis ..
  next
    case False
    with e16 have e: "?e = 16" by simp
    then have "- 126 < ?e" by simp
    from expo32_lower[OF this] have "65536 \<le> \<bar>x\<bar>" using e by simp
    with xle have ax: "\<bar>x\<bar> = 65536" by simp
    have u: "?u = 1 / 128" using e by (simp add: power_int_minus)
    from ax have "x = 65536 \<or> x = - 65536" by (simp add: abs_if split: if_splits)
    then have "x / ?u = of_int 8388608 \<or> x / ?u = of_int (- 8388608)"
      unfolding u by auto
    then show ?thesis by blast
  qed
  then obtain j where "x / ?u = of_int j" ..
  then have "fl32 x = x" by (rule fl32_exact_if_integral)
  then show ?thesis by (simp only: x_def)
qed

lemma float_rounding_fl32: "float_rounding fl32"
  unfolding float_rounding_def using fl32_mono fl32_grid by blast

text \<open>Evaluation on one binade.\<close>

lemma fl32_eval:
  assumes "power_int 2 e \<le> \<bar>x\<bar>" and "\<bar>x\<bar> < power_int 2 (e + 1)" and "- 126 \<le> e" and "e \<le> 127"
  shows "fl32 x = of_int (round_even (x / power_int 2 (e - 23))) * power_int 2 (e - 23)"
proof -
  have "0 < \<bar>x\<bar>" using assms(1) zero_less_power_int[of "2::real" e] by linarith
  then have "x \<noteq> 0" by simp
  then show ?thesis by (simp add: fl32_alt expo32_eqI[OF assms])
qed

text \<open>
  The relative error of the rounding is at most \<open>2 ^ -24\<close> from the smallest normal
  number on.
\<close>

lemma fl32_rel_error:
  assumes "power_int 2 (- 126) \<le> \<bar>x\<bar>"
  shows "\<bar>fl32 x - x\<bar> \<le> \<bar>x\<bar> / 2 ^ 24"
proof -
  let ?e = "expo32 x"
  let ?u = "power_int (2::real) (?e - 23)"
  have xpos: "0 < \<bar>x\<bar>" using assms zero_less_power_int[of "2::real" "- 126"] by linarith
  then have x0: "x \<noteq> 0" by simp
  have lower: "power_int 2 ?e \<le> \<bar>x\<bar>"
  proof (cases "- 126 < ?e")
    case True
    then show ?thesis by (rule expo32_lower)
  next
    case False
    with expo32_range(1)[of x] have "?e = - 126" by simp
    with assms show ?thesis by simp
  qed
  have u: "0 < ?u" by simp
  have "fl32 x - x = (of_int (round_even (x / ?u)) - x / ?u) * ?u"
    using x0 u by (simp add: fl32_alt field_simps)
  then have "\<bar>fl32 x - x\<bar> = \<bar>of_int (round_even (x / ?u)) - x / ?u\<bar> * ?u"
    using u by (simp add: abs_mult)
  also have "\<dots> \<le> 1 / 2 * ?u"
    using round_even_near[of "x / ?u"] u by (intro mult_right_mono) simp_all
  also have "\<dots> = power_int 2 ?e / 2 ^ 24" by (subst (2) pw_23) simp
  also have "\<dots> \<le> \<bar>x\<bar> / 2 ^ 24" using lower by (simp add: divide_right_mono)
  finally show ?thesis .
qed

lemma fl32_scale_accurate:
  assumes "power_int 2 (- 126) \<le> t"
  shows "\<bar>fl32 t - t\<bar> \<le> t / 2 ^ 22"
proof -
  have t0: "0 < t" using assms zero_less_power_int[of "2::real" "- 126"] by linarith
  then have "power_int 2 (- 126) \<le> \<bar>t\<bar>" using assms by simp
  from fl32_rel_error[OF this] t0 have "\<bar>fl32 t - t\<bar> \<le> t / 2 ^ 24" by simp
  also have "\<dots> \<le> t / 2 ^ 22" using t0 by (simp add: field_simps)
  finally show ?thesis .
qed

lemma float_rounding_id: "float_rounding (\<lambda>x. x)"
  by (simp add: float_rounding_def)

lemma float_rounding_mono: "float_rounding fl \<Longrightarrow> x \<le> y \<Longrightarrow> fl x \<le> fl y"
  by (simp add: float_rounding_def)

lemma float_rounding_grid:
  "float_rounding fl \<Longrightarrow> \<bar>k\<bar> \<le> 2 ^ 24 \<Longrightarrow> fl (of_int k / 256) = of_int k / 256"
  by (simp add: float_rounding_def)

lemma float_rounding_int:
  assumes "float_rounding fl" and "\<bar>n\<bar> \<le> 65536"
  shows "fl (of_int n) = of_int n"
proof -
  from assms(2) have "\<bar>n * 256\<bar> \<le> 2 ^ 24" by (simp add: abs_mult)
  from float_rounding_grid[OF assms(1) this] show ?thesis by simp
qed

lemma fl_bound:
  assumes "float_rounding fl" and "\<bar>y\<bar> \<le> of_int b" and "b \<le> 65536"
  shows "\<bar>fl y\<bar> \<le> of_int b"
proof -
  from assms(2) have b0: "0 \<le> b" by linarith
  with assms(3) have ab: "\<bar>b\<bar> \<le> 65536" "\<bar>- b\<bar> \<le> 65536" by simp_all
  from assms(2) have "y \<le> of_int b" "of_int (- b) \<le> y" by (simp_all add: abs_le_iff)
  then have "fl y \<le> fl (of_int b)" "fl (of_int (- b)) \<le> fl y"
    using assms(1) by (simp_all only: float_rounding_mono)
  then have "fl y \<le> of_int b" "of_int (- b) \<le> fl y"
    by (simp_all only: float_rounding_int[OF assms(1) ab(1)] float_rounding_int[OF assms(1) ab(2)])
  then show ?thesis by (simp add: abs_le_iff)
qed

lemma fl_between:
  assumes "float_rounding fl" and "\<bar>y\<bar> \<le> 65536"
  shows "of_int \<lfloor>y\<rfloor> \<le> fl y" and "fl y \<le> of_int \<lceil>y\<rceil>"
proof -
  from assms(2) have "- 65536 \<le> y" "y \<le> 65536" by (simp_all add: abs_le_iff)
  then have f: "\<bar>\<lfloor>y\<rfloor>\<bar> \<le> 65536" and c: "\<bar>\<lceil>y\<rceil>\<bar> \<le> 65536"
    by (simp_all add: abs_le_iff floor_le_iff le_floor_iff ceiling_le_iff le_ceiling_iff) linarith+
  have "fl (of_int \<lfloor>y\<rfloor>) \<le> fl y" using assms(1) by (rule float_rounding_mono) simp
  then show "of_int \<lfloor>y\<rfloor> \<le> fl y" by (simp only: float_rounding_int[OF assms(1) f])
  have "fl y \<le> fl (of_int \<lceil>y\<rceil>)" using assms(1) by (rule float_rounding_mono) simp
  then show "fl y \<le> of_int \<lceil>y\<rceil>" by (simp only: float_rounding_int[OF assms(1) c])
qed

lemma trunc_fl_floor_ceiling:
  assumes "float_rounding fl" and "\<bar>y\<bar> \<le> 65536"
  shows "trunc_toward_zero (fl y) = \<lfloor>y\<rfloor> \<or> trunc_toward_zero (fl y) = \<lceil>y\<rceil>"
proof -
  note b = fl_between[OF assms]
  have c: "\<lceil>y\<rceil> \<le> \<lfloor>y\<rfloor> + 1" by linarith
  have lo: "\<lfloor>y\<rfloor> \<le> \<lfloor>fl y\<rfloor>" using b(1) by (simp add: le_floor_iff)
  have hi: "\<lceil>fl y\<rceil> \<le> \<lceil>y\<rceil>" using b(2) by (simp add: ceiling_le_iff)
  have fc: "\<lfloor>fl y\<rfloor> \<le> \<lceil>fl y\<rceil>" by linarith
  show ?thesis
  proof (cases "0 \<le> fl y")
    case True
    from lo hi fc c have "\<lfloor>fl y\<rfloor> = \<lfloor>y\<rfloor> \<or> \<lfloor>fl y\<rfloor> = \<lceil>y\<rceil>" by arith
    with True show ?thesis by (simp add: trunc_toward_zero_def)
  next
    case False
    from lo hi fc c have "\<lceil>fl y\<rceil> = \<lfloor>y\<rfloor> \<or> \<lceil>fl y\<rceil> = \<lceil>y\<rceil>" by arith
    with False show ?thesis by (simp add: trunc_toward_zero_def)
  qed
qed

lemma fl32_half_scale: "fl32 (32767 / 2) = 32767 / 2"
  using fl32_grid[of 4194176] by simp

lemma fl32_round_up: "fl32 (1073741823 / 65536) = 16384"
proof -
  have "fl32 (1073741823 / 65536)
      = of_int (round_even (1073741823 / 65536 / power_int 2 (13 - 23))) * power_int 2 (13 - 23)"
    by (rule fl32_eval) simp_all
  also have "\<dots> = 16384" by (simp add: round_even_def power_int_minus)
  finally show ?thesis .
qed

lemma fl32_0: "fl32 0 = 0"
  by (simp add: fl32_def)

lemma fl32_scale_47: "fl32 (147456 / 235) = 10280507 / 16384"
proof -
  have "fl32 (147456 / 235)
      = of_int (round_even (147456 / 235 / power_int 2 (9 - 23))) * power_int 2 (9 - 23)"
    by (rule fl32_eval) simp_all
  also have "\<dots> = 10280507 / 16384"
    by (simp add: round_even_def power_int_minus)
  finally show ?thesis .
qed

lemma fl32_peak_47: "fl32 (483183829 / 536870912) = 15099495 / 16777216"
proof -
  have "fl32 (483183829 / 536870912)
      = of_int (round_even (483183829 / 536870912 / power_int 2 (- 1 - 23))) * power_int 2 (- 1 - 23)"
    by (rule fl32_eval) (simp_all add: power_int_minus)
  also have "\<dots> = 15099495 / 16777216"
    by (simp add: round_even_def power_int_minus)
  finally show ?thesis .
qed

lemma fl32_quant_47: "fl32 (494765152665 / 16777216) = 7549517 / 256"
proof -
  have "fl32 (494765152665 / 16777216)
      = of_int (round_even (494765152665 / 16777216 / power_int 2 (14 - 23))) * power_int 2 (14 - 23)"
    by (rule fl32_eval) (simp_all add: power_int_minus)
  also have "\<dots> = 7549517 / 256"
    by (simp add: round_even_def power_int_minus)
  finally show ?thesis .
qed

subsection \<open>Peak, normalisation and quantisation\<close>

lemma np_max_eq: "np_max xs = (if xs = [] then Inl ValueError else Inr (Max (set xs)))"
proof (cases xs)
  case Nil
  then show ?thesis by (simp add: np_max_def)
next
  case (Cons a l)
  have "fold max l a = Max (set (a # l))" by (rule Max.set_eq_fold[symmetric])
  with Cons show ?thesis by (simp add: np_max_def)
qed

lemma np_max_abs_Inr:
  assumes "np_max (map abs xs) = Inr m"
  shows "xs \<noteq> []" and "m = Max (abs ` set xs)" and "\<And>x. x \<in> set xs \<Longrightarrow> \<bar>x\<bar> \<le> m"
    and "\<exists>x\<in>set xs. \<bar>x\<bar> = m" and "0 \<le> m"
proof -
  from assms show ne: "xs \<noteq> []" by (auto simp: np_max_eq split: if_splits)
  from assms ne show m: "m = Max (abs ` set xs)" by (simp add: np_max_eq)
  show le: "\<And>x. x \<in> set xs \<Longrightarrow> \<bar>x\<bar> \<le> m" by (simp add: m)
  have "Max (abs ` set xs) \<in> abs ` set xs" using ne by (intro Max_in) simp_all
  then show ex: "\<exists>x\<in>set xs. \<bar>x\<bar> = m" unfolding m by auto
  from ex show "0 \<le> m" by auto
qed


lemma trunc_toward_zero_bound:
  assumes "\<bar>y\<bar> \<le> real_of_int b"
  shows "\<bar>trunc_toward_zero y\<bar> \<le> b"
proof (cases "0 \<le> y")
  case True
  then have "0 \<le> \<lfloor>y\<rfloor>" by simp
  moreover have "\<lfloor>y\<rfloor> \<le> b" using assms True by (simp add: floor_le_iff)
  ultimately show ?thesis using True by (simp add: trunc_toward_zero_def)
next
  case False
  then have "\<lceil>y\<rceil> \<le> 0" by (simp add: ceiling_le_iff)
  moreover have "- b \<le> \<lceil>y\<rceil>" using assms False by (simp add: le_ceiling_iff)
  ultimately show ?thesis using False by (simp add: trunc_toward_zero_def)
qed

lemma sint_astype_int16:
  assumes "\<bar>trunc_toward_zero x\<bar> \<le> 32767"
  shows "sint (astype_int16 x) = trunc_toward_zero x"
proof -
  from assms have "- (2 ^ 15) \<le> trunc_toward_zero x"
    and "trunc_toward_zero x < 2 ^ 15" by simp_all
  then have "signed_take_bit 15 (trunc_toward_zero x) = trunc_toward_zero x"
    by (rule signed_take_bit_int_eq_self)
  then show ?thesis unfolding astype_int16_def by (simp add: sint_sbintrunc')
qed

lemma save_as_raw_unpack:
  "struct_unpack_h (fst (save_as_raw fl xs))
     = Inr (map (\<lambda>x. sint (astype_int16 (fl (x * 32767)))) xs)"
  by (simp add: save_as_raw_def Let_def struct_unpack_h_tobytes comp_def)

lemma quantize_fl_bound:
  assumes "float_rounding fl" and "\<bar>y\<bar> \<le> of_int b" and "b \<le> 32767"
  shows "\<bar>trunc_toward_zero (fl y)\<bar> \<le> b"
    and "sint (astype_int16 (fl y)) = trunc_toward_zero (fl y)"
proof -
  from assms(3) have "b \<le> 65536" by simp
  from fl_bound[OF assms(1,2) this] show b: "\<bar>trunc_toward_zero (fl y)\<bar> \<le> b"
    by (rule trunc_toward_zero_bound)
  with assms(3) have "\<bar>trunc_toward_zero (fl y)\<bar> \<le> 32767" by simp
  then show "sint (astype_int16 (fl y)) = trunc_toward_zero (fl y)" by (rule sint_astype_int16)
qed

lemma sint_astype_int16_wrap:
  assumes "32768 \<le> trunc_toward_zero x" and "trunc_toward_zero x < 65536"
  shows "sint (astype_int16 x) = trunc_toward_zero x - 65536"
proof -
  have "uint (astype_int16 x) = trunc_toward_zero x mod 65536"
    by (simp add: astype_int16_def uint_word_of_int take_bit_eq_mod)
  also have "\<dots> = trunc_toward_zero x" using assms by (intro mod_pos_pos_trivial) simp_all
  finally show ?thesis using assms(1) by (simp add: sint_16)
qed

lemma normalize_audio_fl_exact: "normalize_audio_fl (\<lambda>x. x) (\<lambda>t. t) = normalize_audio"
  by (intro ext) (simp add: normalize_audio_fl_def normalize_audio_def)

lemma normalize_audio_fl_length:
  "normalize_audio_fl fl fl_scale xs t = Inr ys \<Longrightarrow> xs \<noteq> [] \<and> length ys = length xs"
  by (auto simp: normalize_audio_fl_def np_max_eq split: if_splits)

lemma normalize_audio_fl_bound:
  assumes fr: "float_rounding fl"
    and acc: "0 < Max (abs ` set xs) \<longrightarrow>
                \<bar>fl_scale (t / Max (abs ` set xs)) - t / Max (abs ` set xs)\<bar>
                  \<le> t / Max (abs ` set xs) / 2 ^ 22"
    and t: "0 \<le> t"
    and n: "normalize_audio_fl fl fl_scale xs t = Inr ys"
    and y: "y \<in> set ys"
  shows "fl (- (t * (1 + 1 / 2 ^ 22))) \<le> y" and "y \<le> fl (t * (1 + 1 / 2 ^ 22))"
proof -
  let ?B = "t * (1 + 1 / 2 ^ 22)"
  from n obtain m where m: "np_max (map abs xs) = Inr m"
    and ys: "ys = (if m > 0 then map (\<lambda>x. fl (x * fl_scale (t / m))) xs else xs)"
    by (cases "np_max (map abs xs)") (auto simp: normalize_audio_fl_def split: if_splits)
  note f = np_max_abs_Inr[OF m]
  have B0: "0 \<le> ?B" using t by simp
  have z: "fl 0 = 0" using float_rounding_int[OF fr, of 0] by simp
  have "fl (- ?B) \<le> y \<and> y \<le> fl ?B"
  proof (cases "m > 0")
    case True
    define s where "s = fl_scale (t / m)"
    from acc True f(2) have a: "\<bar>s - t / m\<bar> \<le> t / m / 2 ^ 22" by (simp add: s_def)
    have tm: "0 \<le> t / m" using t True by simp
    from a tm have s0: "0 \<le> s" and s1: "s \<le> t / m * (1 + 1 / 2 ^ 22)"
      by (simp_all add: abs_le_iff field_simps)
    from ys True y obtain x where x: "x \<in> set xs" "y = fl (x * s)" by (auto simp: s_def)
    have "\<bar>x * s\<bar> = \<bar>x\<bar> * s" using s0 by (simp add: abs_mult)
    also have "\<dots> \<le> m * s" using f(3)[OF x(1)] s0 by (rule mult_right_mono)
    also have "\<dots> \<le> m * (t / m * (1 + 1 / 2 ^ 22))" using s1 True by (intro mult_left_mono) simp_all
    also have "\<dots> = ?B" using True by simp
    finally have "\<bar>x * s\<bar> \<le> ?B" .
    then have "- ?B \<le> x * s" "x * s \<le> ?B" by (simp_all add: abs_le_iff)
    then show ?thesis unfolding x(2) using fr by (simp only: float_rounding_mono simp_thms)
  next
    case False
    with ys y have "y \<in> set xs" by simp
    from f(3)[OF this] False f(5) have "y = 0" by simp
    moreover have "fl (- ?B) \<le> fl 0" "fl 0 \<le> fl ?B"
      using B0 fr by (simp_all only: float_rounding_mono neg_le_0_iff_le)
    ultimately show ?thesis by (simp add: z)
  qed
  then show "fl (- ?B) \<le> y" and "y \<le> fl ?B" by simp_all
qed

lemma normalize_audio_fl_no_overflow:
  assumes "float_rounding fl"
    and "0 < Max (abs ` set audio) \<longrightarrow>
           \<bar>fl_scale (9 / 10 / Max (abs ` set audio)) - 9 / 10 / Max (abs ` set audio)\<bar>
             \<le> 9 / 10 / Max (abs ` set audio) / 2 ^ 22"
    and "normalize_audio_fl fl fl_scale audio (9 / 10) = Inr ys"
  shows "ys \<noteq> [] \<and> length ys = length audio
       \<and> (\<forall>y\<in>set ys.
             fl (- (9 / 10 * (1 + 1 / 2 ^ 22))) \<le> y \<and> y \<le> fl (9 / 10 * (1 + 1 / 2 ^ 22))
           \<and> \<bar>y\<bar> \<le> 231 / 256
           \<and> - 32768 \<le> trunc_toward_zero (fl (y * 32767))
           \<and> trunc_toward_zero (fl (y * 32767)) \<le> 32767
           \<and> sint (astype_int16 (fl (y * 32767))) = trunc_toward_zero (fl (y * 32767)))
       \<and> struct_unpack_h (fst (save_as_raw fl ys))
           = Inr (map (\<lambda>y. trunc_toward_zero (fl (y * 32767))) ys)"
proof -
  note fr = assms(1)
  from normalize_audio_fl_length[OF assms(3)] have ne: "ys \<noteq> []" and len: "length ys = length audio"
    by auto
  have b: "fl (- (9 / 10 * (1 + 1 / 2 ^ 22))) \<le> y \<and> y \<le> fl (9 / 10 * (1 + 1 / 2 ^ 22))"
    if "y \<in> set ys" for y
    using normalize_audio_fl_bound[OF fr assms(2) _ assms(3) that] by simp
  have g: "fl (231 / 256) = 231 / 256" "fl (- (231 / 256)) = - (231 / 256)"
    using float_rounding_grid[OF fr, of 231] float_rounding_grid[OF fr, of "- 231"] by simp_all
  have u: "fl (9 / 10 * (1 + 1 / 2 ^ 22)) \<le> fl (231 / 256)"
    "fl (- (231 / 256)) \<le> fl (- (9 / 10 * (1 + 1 / 2 ^ 22)))"
    by (rule float_rounding_mono[OF fr], simp)+
  have a: "\<bar>y\<bar> \<le> 231 / 256" if "y \<in> set ys" for y
    using b[OF that] u unfolding g by linarith
  have p: "\<bar>y * 32767\<bar> \<le> real_of_int 29568" if "y \<in> set ys" for y
    using a[OF that] by (simp add: abs_mult)
  have r: "\<bar>trunc_toward_zero (fl (y * 32767))\<bar> \<le> 29568" if "y \<in> set ys" for y
    using quantize_fl_bound(1)[OF fr p[OF that]] by simp
  have r': "- 32768 \<le> trunc_toward_zero (fl (y * 32767))
          \<and> trunc_toward_zero (fl (y * 32767)) \<le> 32767" if "y \<in> set ys" for y
    using r[OF that] by linarith
  have s: "sint (astype_int16 (fl (y * 32767))) = trunc_toward_zero (fl (y * 32767))"
    if "y \<in> set ys" for y
    using quantize_fl_bound(2)[OF fr p[OF that]] by simp
  have m: "map (\<lambda>y. sint (astype_int16 (fl (y * 32767)))) ys
         = map (\<lambda>y. trunc_toward_zero (fl (y * 32767))) ys"
    using s by simp
  show ?thesis using ne len b a r' s by (simp add: save_as_raw_unpack m)
qed

lemma normalize_fl32_example:
  "normalize_audio_fl fl32 fl32 [0, 47 / 32768, 0] (9 / 10) = Inr [0, 15099495 / 16777216, 0]"
  by (simp add: normalize_audio_fl_def np_max_def fl32_0 fl32_scale_47 fl32_peak_47)

lemma ebind_Inr: "ebind x f = Inr y \<Longrightarrow> \<exists>a. x = Inr a \<and> f a = Inr y"
  by (cases x) auto

lemma faded_buffer_example:
  "faded_buffer None 1 44100 [0, 188 / 32768, 0] = Inr [0, 47 / 32768, 0]"
proof -
  have c1: "convert_to_mono [0, 188 / 32768, 0] 1 = Inr [0, 188 / 32768, 0]"
    by (simp add: convert_to_mono_def)
  have c2: "resample_audio None [0, 188 / 32768, 0] 44100 44100 = Inr [0, 188 / 32768, 0]"
    by (simp add: resample_audio_def)
  have c3: "trim_silence [0, 188 / 32768, 0] (1 / 100) = Inr [0, 188 / 32768, 0]"
    by code_simp
  have c4: "apply_fade_in [0, 188 / 32768, 0] 882 = [0, 94 / 32768, 0]"
    by (simp add: apply_fade_in_def linspace_def upt_rec)
  have c5: "apply_fade_out [0, 94 / 32768, 0] 2205 = Inr [0, 47 / 32768, 0]"
    by (simp add: apply_fade_out_def linspace_def upt_rec)
  show ?thesis
    by (simp only: faded_buffer_def c1 c2 c3 c4 c5 ebind.simps)
qed

lemma chain_example:
  "normalizer_chain fl32 fl32 None 1 44100 [0, 188 / 32768, 0] = Inr [0, 15099495 / 16777216, 0]"
  by (simp only: normalizer_chain_def faded_buffer_example normalize_fl32_example ebind.simps)

lemma normalizer_chain_last:
  assumes "normalizer_chain fl fl_scale scipy ch rate audio = Inr ys"
  shows "\<exists>a5. faded_buffer scipy ch rate audio = Inr a5
              \<and> normalize_audio_fl fl fl_scale a5 (9 / 10) = Inr ys"
  using assms unfolding normalizer_chain_def by (rule ebind_Inr)

subsection \<open>The resolver\<close>

lemma find_sample_Cons:
  assumes "key_bounds (key_range b) \<noteq> Inl TypeError"
  shows "find_sample (b # bags) n = (if covers b n then Inr (sample b) else find_sample bags n)"
proof (cases "key_bounds (key_range b)")
  case (Inl e)
  have "e = TypeError"
    using Inl by (auto simp: key_bounds_def split: key_range.splits if_splits)
  with Inl assms show ?thesis by simp
next
  case (Inr kb)
  show ?thesis
  proof (cases kb)
    case None
    with Inr show ?thesis by (simp add: covers_def)
  next
    case (Some p)
    obtain lo hi where "p = (lo, hi)" by (cases p)
    with Some Inr show ?thesis by (simp add: covers_def)
  qed
qed

lemma find_sample_first:
  assumes "\<forall>b\<in>set bags. key_bounds (key_range b) \<noteq> Inl TypeError"
    and "i < length bags" and "covers (bags ! i) n" and "\<forall>j<i. \<not> covers (bags ! j) n"
  shows "find_sample bags n = Inr (sample (bags ! i))"
  using assms
proof (induction bags arbitrary: i)
  case Nil
  then show ?case by simp
next
  case (Cons b bags)
  from Cons.prems(1) have wf: "key_bounds (key_range b) \<noteq> Inl TypeError" by simp
  show ?case
  proof (cases i)
    case 0
    with Cons.prems(3) show ?thesis by (simp add: find_sample_Cons[OF wf] del: find_sample.simps)
  next
    case (Suc k)
    with Cons.prems(4) have nb: "\<not> covers b n" by auto
    have "find_sample bags n = Inr (sample (bags ! k))"
      using Cons.prems Suc by (intro Cons.IH) auto
    with nb Suc show ?thesis by (simp add: find_sample_Cons[OF wf] del: find_sample.simps)
  qed
qed

lemma find_sample_none:
  assumes "\<forall>b\<in>set bags. key_bounds (key_range b) \<noteq> Inl TypeError"
    and "\<forall>b\<in>set bags. \<not> covers b n"
  shows "find_sample bags n = Inr None"
  using assms by (induction bags) (simp_all add: find_sample_Cons del: find_sample.simps(2))

lemma find_sample_total:
  assumes "\<forall>b\<in>set bags. key_bounds (key_range b) \<noteq> Inl TypeError"
  shows "\<exists>r. find_sample bags n = Inr r"
  using assms by (induction bags) (simp_all add: find_sample_Cons del: find_sample.simps(2))

lemma extract_notes_wf:
  assumes "\<forall>b\<in>set bags. key_bounds (key_range b) \<noteq> Inl TypeError"
  shows "\<exists>out. extract_notes written bags ns = Inr out
           \<and> map fst out = filter (\<lambda>n. \<exists>s. find_sample bags n = Inr (Some s) \<and> written n s) ns
           \<and> (\<forall>n s. (n, s) \<in> set out \<longrightarrow> find_sample bags n = Inr (Some s) \<and> written n s)"
proof (induction ns)
  case Nil
  then show ?case by simp
next
  case (Cons n ns)
  then obtain out where out: "extract_notes written bags ns = Inr out"
    "map fst out = filter (\<lambda>n. \<exists>s. find_sample bags n = Inr (Some s) \<and> written n s) ns"
    "\<forall>n s. (n, s) \<in> set out \<longrightarrow> find_sample bags n = Inr (Some s) \<and> written n s"
    by blast
  from find_sample_total[OF assms] obtain r where r: "find_sample bags n = Inr r" by blast
  show ?case
  proof (cases r)
    case None
    with r out show ?thesis by simp
  next
    case (Some s)
    with r out show ?thesis by (cases "written n s") auto
  qed
qed

subsection \<open>Silence trimming\<close>

lemma hd_filter_upt:
  assumes "f < n" and "P f" and "\<forall>i<f. \<not> P i"
  shows "filter P [0..<n] \<noteq> []" and "hd (filter P [0..<n]) = f"
proof -
  have "[0..<n] = [0..<f] @ [f..<n]"
    using upt_add_eq_append[of 0 f "n - f"] assms(1) by simp
  also have "[f..<n] = f # [Suc f..<n]" using assms(1) by (rule upt_conv_Cons)
  finally have s: "[0..<n] = [0..<f] @ f # [Suc f..<n]" .
  have e: "filter P [0..<f] = []" using assms(3) by (simp add: filter_empty_conv)
  have "filter P [0..<n] = f # filter P [Suc f..<n]"
    unfolding s using e assms(2) by simp
  then show "filter P [0..<n] \<noteq> []" and "hd (filter P [0..<n]) = f" by simp_all
qed

lemma last_filter_upt:
  assumes "l < n" and "P l" and "\<forall>i. l < i \<and> i < n \<longrightarrow> \<not> P i"
  shows "last (filter P [0..<n]) = l"
proof -
  have "[0..<n] = [0..<l] @ [l..<n]"
    using upt_add_eq_append[of 0 l "n - l"] assms(1) by simp
  also have "[l..<n] = l # [Suc l..<n]" using assms(1) by (rule upt_conv_Cons)
  finally have s: "[0..<n] = [0..<l] @ l # [Suc l..<n]" .
  have e: "filter P [Suc l..<n] = []" using assms(3) by (simp add: filter_empty_conv)
  have "filter P [0..<n] = filter P [0..<l] @ [l]"
    unfolding s using e assms(2) by simp
  then show ?thesis by simp
qed

lemma hd_le_last_filter_upt:
  assumes "filter P [0..<n] \<noteq> []"
  shows "hd (filter P [0..<n]) \<le> last (filter P [0..<n])"
    and "last (filter P [0..<n]) < n"
proof -
  let ?ns = "filter P [0..<n]"
  have srt: "sorted ?ns" by (rule sorted_wrt_filter) simp
  have "last ?ns \<in> set ?ns" using assms by (rule last_in_set)
  then show "last ?ns < n" by simp
  show "hd ?ns \<le> last ?ns"
  proof (cases ?ns)
    case Nil
    with assms show ?thesis by simp
  next
    case (Cons a as)
    with srt have "\<forall>x\<in>set as. a \<le> x" by simp
    then show ?thesis unfolding Cons by (cases "as = []") simp_all
  qed
qed

lemma trim_silence_unfold:
  assumes "xs \<noteq> []"
  shows "trim_silence xs t =
     (let ns = filter (\<lambda>i. \<bar>xs ! i\<bar> > Max (abs ` set xs) * t) [0..<length xs]
      in if ns = [] then Inr xs
         else Inr (drop (hd ns - 100) (take (min (length xs) (last ns + 4410)) xs)))"
proof -
  have m: "np_max (map abs xs) = Inr (Max (abs ` set xs))"
  proof (cases xs)
    case Nil
    with assms show ?thesis by simp
  next
    case (Cons a l)
    have "fold max (map abs l) \<bar>a\<bar> = Max (set (\<bar>a\<bar> # map abs l))"
      by (rule Max.set_eq_fold[symmetric])
    with Cons show ?thesis by (simp add: np_max_def)
  qed
  have f: "filter (\<lambda>i. map abs xs ! i > c) [0..<length (map abs xs)]
         = filter (\<lambda>i. \<bar>xs ! i\<bar> > c) [0..<length xs]" for c
    by (rule filter_cong) simp_all
  have s: "nat (max 0 (int a - 100)) = a - 100" for a by simp
  have e: "nat (min (int (length xs)) (int b + 4410)) = min (length xs) (b + 4410)" for b
    by simp
  show ?thesis
    unfolding trim_silence_def Let_def m ebind.simps f s e by simp
qed

lemma trim_slice_split:
  assumes "f \<le> l" and "l < length xs"
  shows "drop (f - 100) (take (min (length xs) (l + 4410)) xs)
           = drop (f - 100) (take (l + 1) xs) @ take 4409 (drop (l + 1) xs)"
proof -
  have "take (min (length xs) (l + 4410)) xs = take (l + 4410) xs"
    by (simp add: min_def)
  also have "\<dots> = take ((l + 1) + 4409) xs" by (simp add: add.commute)
  also have "\<dots> = take (l + 1) xs @ take 4409 (drop (l + 1) xs)"
    by (rule take_add)
  finally have t: "take (min (length xs) (l + 4410)) xs
      = take (l + 1) xs @ take 4409 (drop (l + 1) xs)" .
  have "f - 100 \<le> length (take (l + 1) xs)" using assms by simp
  then show ?thesis unfolding t using assms by (simp add: min_def)
qed

subsection \<open>Fades\<close>

lemma length_linspace: "length (linspace a b k) = k"
  by (simp add: linspace_def)

lemma nth_linspace:
  "i < k \<Longrightarrow> linspace a b k ! i = (if k = 1 then a else a + real i * ((b - a) / real (k - 1)))"
  by (auto simp: linspace_def)

lemma linspace_up:
  assumes "i \<le> j" and "j < k"
  shows "linspace 0 1 k ! i \<le> linspace 0 1 k ! j"
proof (cases "k = 1")
  case True
  with assms show ?thesis by (simp add: nth_linspace)
next
  case False
  with assms have "0 < real (k - 1)" by simp
  then have "real i / real (k - 1) \<le> real j / real (k - 1)"
    using assms(1) by (simp add: divide_right_mono)
  with assms False show ?thesis by (simp add: nth_linspace)
qed

lemma linspace_down:
  assumes "i \<le> j" and "j < k"
  shows "linspace 1 0 k ! j \<le> linspace 1 0 k ! i"
proof (cases "k = 1")
  case True
  with assms show ?thesis by (simp add: nth_linspace)
next
  case False
  with assms have "0 < real (k - 1)" by simp
  then have "real i / real (k - 1) \<le> real j / real (k - 1)"
    using assms(1) by (simp add: divide_right_mono)
  with assms False show ?thesis by (simp add: nth_linspace)
qed

lemma nth_prefix_map2:
  assumes "k \<le> length xs" and "length ys = k" and "i < length xs"
  shows "(map2 f (take k xs) ys @ drop k xs) ! i = (if i < k then f (xs ! i) (ys ! i) else xs ! i)"
proof -
  have l: "length (map2 f (take k xs) ys) = k" using assms(1,2) by simp
  show ?thesis
  proof (cases "i < k")
    case True
    then have "(map2 f (take k xs) ys @ drop k xs) ! i = map2 f (take k xs) ys ! i"
      using l by (simp add: nth_append)
    also have "\<dots> = f (xs ! i) (ys ! i)" using True assms(1,2) by simp
    finally show ?thesis using True by simp
  next
    case False
    then have "(map2 f (take k xs) ys @ drop k xs) ! i = drop k xs ! (i - k)"
      using l by (simp add: nth_append)
    also have "\<dots> = xs ! i" using False assms(1) by simp
    finally show ?thesis using False by simp
  qed
qed

lemma nth_suffix_map2:
  assumes "d \<le> length xs" and "length ys = length xs - d" and "i < length xs"
  shows "(take d xs @ map2 f (drop d xs) ys) ! i
           = (if d \<le> i then f (xs ! i) (ys ! (i - d)) else xs ! i)"
proof -
  have l: "length (take d xs) = d" using assms(1) by simp
  show ?thesis
  proof (cases "d \<le> i")
    case True
    then have "(take d xs @ map2 f (drop d xs) ys) ! i = map2 f (drop d xs) ys ! (i - d)"
      using l by (simp add: nth_append)
    also have "\<dots> = f (drop d xs ! (i - d)) (ys ! (i - d))"
      using True assms by simp
    also have "drop d xs ! (i - d) = xs ! i" using True assms(1) by simp
    finally show ?thesis using True by simp
  next
    case False
    then have "(take d xs @ map2 f (drop d xs) ys) ! i = take d xs ! i"
      using l by (simp add: nth_append)
    also have "\<dots> = xs ! i" using False by simp
    finally show ?thesis using False by simp
  qed
qed

lemma apply_fade_in_eq:
  "apply_fade_in xs k0 =
     map2 (*) (take (min k0 (length xs)) xs) (linspace 0 1 (min k0 (length xs)))
       @ drop (min k0 (length xs)) xs"
proof -
  have "(if length xs < k0 then length xs else k0) = min k0 (length xs)" by simp
  then show ?thesis unfolding apply_fade_in_def Let_def by (simp only:)
qed

lemma apply_fade_in_length: "length (apply_fade_in xs k0) = length xs"
  by (simp add: apply_fade_in_eq length_linspace)

lemma apply_fade_in_nth:
  assumes "i < length xs"
  shows "apply_fade_in xs k0 ! i =
     (if i < min k0 (length xs) then xs ! i * linspace 0 1 (min k0 (length xs)) ! i else xs ! i)"
  unfolding apply_fade_in_eq
  by (rule nth_prefix_map2) (simp_all add: length_linspace assms)

lemma apply_fade_out_eq:
  assumes "xs \<noteq> []" and "0 < k0"
  shows "apply_fade_out xs k0 =
     Inr (take (length xs - min k0 (length xs)) xs
          @ map2 (*) (drop (length xs - min k0 (length xs)) xs) (linspace 1 0 (min k0 (length xs))))"
proof -
  have e: "(if length xs < k0 then length xs else k0) = min k0 (length xs)" by simp
  have "min k0 (length xs) \<noteq> 0" using assms by simp
  then show ?thesis unfolding apply_fade_out_def Let_def e by simp
qed

lemma apply_fade_out_nth:
  assumes "xs \<noteq> []" and "0 < k0"
  shows "\<exists>ys. apply_fade_out xs k0 = Inr ys \<and> length ys = length xs
      \<and> (\<forall>i<length xs. ys ! i =
            (if length xs - min k0 (length xs) \<le> i
             then xs ! i * linspace 1 0 (min k0 (length xs)) ! (i - (length xs - min k0 (length xs)))
             else xs ! i))"
proof -
  let ?k = "min k0 (length xs)"
  let ?d = "length xs - ?k"
  let ?ys = "take ?d xs @ map2 (*) (drop ?d xs) (linspace 1 0 ?k)"
  have lk: "length (linspace 1 0 ?k) = length xs - ?d" by (simp add: length_linspace)
  have len: "length ?ys = length xs" using lk by simp
  have n: "?ys ! i = (if ?d \<le> i then xs ! i * linspace 1 0 ?k ! (i - ?d) else xs ! i)"
    if "i < length xs" for i
    by (rule nth_suffix_map2[OF _ lk that]) simp
  from apply_fade_out_eq[OF assms] len n show ?thesis by blast
qed

subsection \<open>The whole of \<open>process_wav_to_raw\<close>\<close>

lemma save_as_raw_empty: "save_as_raw fl [] = ([], 0)"
  by (simp add: save_as_raw_def)

lemma generate_c_header_empty: "generate_c_header [] = Inr (1, [0x81000000])"
  by (simp add: generate_c_header_def struct_unpack_h_def format_word_def pack_loop.simps)

lemma normalizer_chain_nonempty:
  assumes "normalizer_chain fl fl_scale scipy ch rate audio = Inr ys"
  shows "ys \<noteq> []"
proof -
  from normalizer_chain_last[OF assms] obtain a5 where
    "normalize_audio_fl fl fl_scale a5 (9 / 10) = Inr ys"
    by blast
  from normalize_audio_fl_length[OF this] show ?thesis by auto
qed

lemma process_wav_to_raw_Some:
  assumes "process_wav_to_raw fl fl_scale scipy wav = Inr (Some a)"
  shows "\<exists>audio0 audio.
           normalizer_chain fl fl_scale scipy (nchannels wav) (framerate wav) audio0 = Inr audio
           \<and> samples a = length audio"
proof -
  from assms have w: "\<not> (sampwidth wav \<noteq> 2 \<and> sampwidth wav \<noteq> 1)"
    by (auto simp: process_wav_to_raw_def split: if_splits)
  with assms obtain audio0 where
    "ebind (normalizer_chain fl fl_scale scipy (nchannels wav) (framerate wav) audio0)
          (\<lambda>audio_data.
        let raw = fst (save_as_raw fl audio_data) in
        ebind (generate_c_header raw) (\<lambda>(n, ws).
          Inr (Some \<lparr> raw_file = raw, num_uint32 = n, cpp_words = ws,
                       size_bytes = length audio_data * 2, samples = length audio_data \<rparr>)))
      = Inr (Some a)"
    unfolding process_wav_to_raw_def by (simp only: if_False) (blast dest: ebind_Inr)
  then obtain audio where
    c: "normalizer_chain fl fl_scale scipy (nchannels wav) (framerate wav) audio0 = Inr audio"
    and "(let raw = fst (save_as_raw fl audio) in
        ebind (generate_c_header raw) (\<lambda>(n, ws).
          Inr (Some \<lparr> raw_file = raw, num_uint32 = n, cpp_words = ws,
                       size_bytes = length audio * 2, samples = length audio \<rparr>)))
      = Inr (Some a)"
    by (blast dest: ebind_Inr)
  then obtain p where "(case p of (n, ws) \<Rightarrow>
          Inr (Some \<lparr> raw_file = fst (save_as_raw fl audio), num_uint32 = n, cpp_words = ws,
                       size_bytes = length audio * 2, samples = length audio \<rparr>))
      = (Inr (Some a) :: error + asset option)"
    unfolding Let_def by (blast dest: ebind_Inr)
  then have "samples a = length audio" by (cases p) auto
  with c show ?thesis by blast
qed

lemma process_empty:
  "process_wav_to_raw fl fl_scale scipy
      \<lparr>nchannels = 1, sampwidth = 2, framerate = 44100, frames = []\<rparr>
     = Inl ValueError"
  by (simp add: process_wav_to_raw_def frombuffer_int16_def normalizer_chain_def
        faded_buffer_def convert_to_mono_def resample_audio_def trim_silence_def np_max_def)

lemma process_example:
  "process_wav_to_raw fl32 fl32 None
      \<lparr>nchannels = 1, sampwidth = 2, framerate = 44100, frames = [0, 0, 188, 0, 0, 0]\<rparr>
     = Inr (Some \<lparr>raw_file = [0, 0, 50, 115, 0, 0], num_uint32 = 3,
                  cpp_words = [0x81000003, 0x73320000, 0], size_bytes = 6, samples = 3\<rparr>)"
proof -
  have d: "frombuffer_int16 [0, 0, 188, 0, 0, 0] = Inr [0, 188, 0]"
    by (simp add: frombuffer_int16_def le_int16_def)
  have c: "normalizer_chain fl32 fl32 None (Suc 0) 44100 [0, 47 / 8192, 0]
             = Inr [0, 15099495 / 16777216, 0]"
    using chain_example by simp
  have q: "fst (save_as_raw fl32 [0, 15099495 / 16777216, 0]) = tobytes [0, 29490, 0]"
    by (simp add: save_as_raw_def astype_int16_def trunc_toward_zero_def fl32_0 fl32_quant_47)
  have g: "generate_c_header (tobytes [0, 29490, 0]) = Inr (3, [0x81000003, 0x73320000, 0])"
    unfolding generate_c_header_tobytes by (simp add: format_word_def pack_loop.simps Let_def)
  have b: "tobytes [0, 29490, 0] = [0, 0, 50, 115, 0, 0]"
    by simp
  note q' = q[unfolded b] and g' = g[unfolded b]
  have e: "ebind (normalizer_chain fl32 fl32 None (Suc 0) 44100 [0, 47 / 8192, 0])
      (\<lambda>audio_data.
          let raw = fst (save_as_raw fl32 audio_data)
          in ebind (generate_c_header raw)
              (\<lambda>(n, ws).
                  Inr (Some
                        \<lparr>raw_file = raw, num_uint32 = n, cpp_words = ws,
                           size_bytes = length audio_data * 2,
                           samples = length audio_data\<rparr>))) =
     Inr (Some
           \<lparr>raw_file = [0, 0, 50, 115, 0, 0], num_uint32 = 3,
              cpp_words = [0x81000003, 0x73320000, 0], size_bytes = 6,
              samples = 3\<rparr>)"
    unfolding c ebind.simps Let_def q' g' prod.case by simp
  show ?thesis
    by (simp add: process_wav_to_raw_def d e)
qed

subsection \<open>The directory input\<close>

lemma glob_star_exclusive: "\<not> (glob_star ''.wav'' f \<and> glob_star ''.WAV'' f)"
  by (auto simp: glob_star_def)

lemma distinct_wav_files: "distinct dir \<Longrightarrow> distinct (wav_files dir)"
  using glob_star_exclusive by (auto simp: wav_files_def)

lemma set_wav_files:
  "set (wav_files dir) = {f \<in> set dir. glob_star ''.wav'' f \<or> glob_star ''.WAV'' f}"
  by (auto simp: wav_files_def)

lemma lower_ext: "map lower_char ''.WAV'' = ''.wav''" "map lower_char ''.wav'' = ''.wav''"
  by code_simp+

lemma glob_star_4:
  "glob_star ''.wav'' f = (4 \<le> length f \<and> drop (length f - 4) f = ''.wav'')"
  "glob_star ''.WAV'' f = (4 \<le> length f \<and> drop (length f - 4) f = ''.WAV'')"
proof -
  have l: "length ''.wav'' = 4" "length ''.WAV'' = 4" by simp_all
  show "glob_star ''.wav'' f = (4 \<le> length f \<and> drop (length f - 4) f = ''.wav'')"
    unfolding glob_star_def l ..
  show "glob_star ''.WAV'' f = (4 \<le> length f \<and> drop (length f - 4) f = ''.WAV'')"
    unfolding glob_star_def l ..
qed

lemma glob_star_spec:
  assumes "glob_star ''.wav'' f \<or> glob_star ''.WAV'' f"
  shows "spec_wav_match f"
proof -
  from assms have l: "4 \<le> length f" unfolding glob_star_4 by blast
  from assms have "drop (length f - 4) f = ''.wav'' \<or> drop (length f - 4) f = ''.WAV''"
    unfolding glob_star_4 by blast
  then have "map lower_char (drop (length f - 4) f) = ''.wav''"
    using lower_ext by (elim disjE) (simp_all only:)
  then have "drop (length (map lower_char f) - 4) (map lower_char f) = ''.wav''"
    by (simp only: drop_map length_map)
  with l show ?thesis unfolding spec_wav_match_def glob_star_4 by simp
qed

section \<open>The claims\<close>

subsection \<open>C1: layout of the packed word array\<close>

text \<open>
  C1. For the raw file of any quantised sample sequence \<open>q\<close> of length \<open>n\<close>,
  \<open>generate_c_header\<close> declares and emits exactly \<open>1 + (n + 1) div 2\<close> words. Word 0 is
  \<open>(0x81 << 24) | (n & 0xFFFFFF)\<close>: its bits [31:24] are the tag \<open>0x81\<close> and its bits
  [23:0] are the sample count (reduced modulo \<open>2 ^ 24\<close>, which is \<open>n\<close> itself below
  \<open>2 ^ 24\<close>). Every word \<open>i \<ge> 1\<close> holds the 16-bit pattern of sample \<open>2 * (i - 1)\<close> in
  bits [15:0] and that of sample \<open>2 * (i - 1) + 1\<close> in bits [31:16] (and nothing above
  bit 31); where that second sample does not exist, which is the last word of an odd
  \<open>n\<close>, the upper 16 bits are zero.
\<close>

theorem generate_c_header_layout:
  fixes q :: "16 word list"
  defines "n \<equiv> length q"
  defines "ws \<equiv> format_word (length q) # pack_loop (map sint q) 0"
  shows "generate_c_header (tobytes q) = Inr (1 + (n + 1) div 2, ws)
       \<and> length ws = 1 + (n + 1) div 2
       \<and> ws ! 0 = (push_bit 24 0x81 OR (int n AND 0xFFFFFF))
       \<and> drop_bit 24 (ws ! 0) = 0x81
       \<and> take_bit 24 (ws ! 0) = int n mod 2 ^ 24
       \<and> (\<forall>i. 1 \<le> i \<and> i < length ws \<longrightarrow>
              take_bit 16 (ws ! i) = uint (q ! (2 * (i - 1)))
            \<and> (2 * (i - 1) + 1 < n \<longrightarrow> drop_bit 16 (ws ! i) = uint (q ! (2 * (i - 1) + 1)))
            \<and> (\<not> 2 * (i - 1) + 1 < n \<longrightarrow> drop_bit 16 (ws ! i) = 0))
       \<and> (odd n \<longrightarrow> drop_bit 16 (last ws) = 0)"
proof -
  have len: "length ws = 1 + (n + 1) div 2"
    by (simp add: ws_def n_def length_pack_loop)
  have w0: "ws ! 0 = (push_bit 24 0x81 OR (int n AND 0xFFFFFF))"
    by (simp add: ws_def n_def format_word_def)
  have tag: "drop_bit 24 (ws ! 0) = 0x81"
    unfolding w0 and_FFFFFF by (rule drop_bit_format)
  have cnt: "take_bit 24 (ws ! 0) = int n mod 2 ^ 24"
    unfolding w0 and_FFFFFF take_bit_format by (simp add: take_bit_eq_mod)
  have word: "ws ! i =
      (take_bit 16 (sint (q ! (2 * (i - 1))))
        OR push_bit 16 (if 2 * (i - 1) + 1 < n then take_bit 16 (sint (q ! (2 * (i - 1) + 1))) else 0))"
    if i: "1 \<le> i" "i < length ws" for i
  proof -
    from i len have lt: "0 + 2 * (i - 1) < length (map sint q)" by (simp add: n_def)
    from i have "ws ! i = pack_loop (map sint q) 0 ! (i - 1)"
      by (simp add: ws_def nth_Cons')
    also from nth_pack_loop[OF lt] lt have "\<dots> =
      (take_bit 16 (sint (q ! (2 * (i - 1))))
        OR push_bit 16 (if 2 * (i - 1) + 1 < n then take_bit 16 (sint (q ! (2 * (i - 1) + 1))) else 0))"
      by (simp add: n_def)
    finally show ?thesis .
  qed
  have lo: "take_bit 16 (ws ! i) = uint (q ! (2 * (i - 1)))" if "1 \<le> i" "i < length ws" for i
  proof -
    have "take_bit 16 (ws ! i) = take_bit 16 (sint (q ! (2 * (i - 1))))"
      unfolding word[OF that] by (rule take_bit_packed)
    then show ?thesis by (simp only: take_bit_sint16)
  qed
  have hi: "drop_bit 16 (ws ! i) = uint (q ! (2 * (i - 1) + 1))"
    if "1 \<le> i" "i < length ws" "2 * (i - 1) + 1 < n" for i
    unfolding word[OF that(1,2)] drop_bit_packed using that(3) by (simp add: take_bit_sint16)
  have pad: "drop_bit 16 (ws ! i) = 0"
    if "1 \<le> i" "i < length ws" "\<not> 2 * (i - 1) + 1 < n" for i
    unfolding word[OF that(1,2)] drop_bit_packed using that(3) by simp
  have odd_pad: "drop_bit 16 (last ws) = 0" if "odd n"
  proof -
    from that have n1: "1 \<le> n" by (cases n) simp_all
    have ne: "ws \<noteq> []" by (simp add: ws_def)
    have l: "last ws = ws ! ((n + 1) div 2)" using len by (simp add: last_conv_nth[OF ne])
    from that have e: "2 * ((n + 1) div 2 - 1) + 1 = n" by (elim oddE) simp
    have "1 \<le> (n + 1) div 2" using n1 by simp
    moreover have "(n + 1) div 2 < length ws" using len by simp
    moreover have "\<not> 2 * ((n + 1) div 2 - 1) + 1 < n" using e by simp
    ultimately show ?thesis unfolding l by (rule pad)
  qed
  show ?thesis
    using generate_c_header_tobytes[of q] len w0 tag cnt lo hi pad odd_pad
    unfolding ws_def n_def by blast
qed

theorem generate_c_header_layout_witness:
  "generate_c_header (tobytes [1, - 1, 3]) = Inr (3, [0x81000003, 0xFFFF0001, 3])
   \<and> (1::nat) \<le> 1 \<and> (1::nat) < length [0x81000003, 0xFFFF0001, 3 :: int]
   \<and> take_bit 16 (0xFFFF0001 :: int) = uint (1 :: 16 word)
   \<and> drop_bit 16 (0xFFFF0001 :: int) = uint (- 1 :: 16 word)
   \<and> odd (length [1, - 1, 3 :: 16 word]) \<and> drop_bit 16 (3 :: int) = 0"
proof -
  have ws: "format_word (length [1, - 1, 3 :: 16 word]) # pack_loop (map sint [1, - 1, 3 :: 16 word]) 0
      = [0x81000003, 0xFFFF0001, 3]"
    by (simp add: pack_loop.simps format_word_def Let_def)
  note th = generate_c_header_layout[of "[1, - 1, 3]", unfolded ws]
  from th have a: "generate_c_header (tobytes [1, - 1, 3]) = Inr (3, [0x81000003, 0xFFFF0001, 3])"
    by simp
  from th have "\<forall>i. 1 \<le> i \<and> i < length [0x81000003, 0xFFFF0001, 3 :: int] \<longrightarrow>
      take_bit 16 ([0x81000003, 0xFFFF0001, 3 :: int] ! i) = uint ([1, - 1, 3 :: 16 word] ! (2 * (i - 1)))
      \<and> (2 * (i - 1) + 1 < length [1, - 1, 3 :: 16 word] \<longrightarrow>
           drop_bit 16 ([0x81000003, 0xFFFF0001, 3 :: int] ! i) = uint ([1, - 1, 3 :: 16 word] ! (2 * (i - 1) + 1)))"
    by blast
  from this[rule_format, of 1] have b:
    "take_bit 16 (0xFFFF0001 :: int) = uint (1 :: 16 word)"
    "drop_bit 16 (0xFFFF0001 :: int) = uint (- 1 :: 16 word)"
    by simp_all
  from th have c: "drop_bit 16 (3 :: int) = 0" by simp
  from a b c show ?thesis by simp
qed

subsection \<open>C2: packing is lossless below \<open>2 ^ 24\<close> samples\<close>

text \<open>
  C2, as amended. For every sequence of fewer than \<open>2 ^ 24\<close> 16-bit signed samples,
  packing the sequence with \<open>generate_c_header\<close> and decoding the words by the layout
  of section 6 (sample count from the header, two two's-complement half-words per data
  word, padding dropped) gives back the sequence exactly.
\<close>

theorem pack_decode_roundtrip:
  fixes q :: "16 word list"
  assumes "length q < 2 ^ 24"
  shows "ebind (generate_c_header (tobytes q)) (\<lambda>(n, ws). Inr (decode_spec ws))
           = (Inr (map sint q) :: error + int list)"
proof -
  from assms have "length q mod 2 ^ 24 = length q" by (rule mod_less)
  then show ?thesis by (simp only: roundtrip_general take_map take_all[OF le_refl])
qed

theorem pack_decode_roundtrip_witness:
  "length [1, - 1, 3 :: 16 word] < 2 ^ 24
   \<and> ebind (generate_c_header (tobytes [1, - 1, 3])) (\<lambda>(n, ws). Inr (decode_spec ws))
       = (Inr [1, - 1, 3] :: error + int list)"
proof -
  have h: "length [1, - 1, 3 :: 16 word] < 2 ^ 24" by simp
  from pack_decode_roundtrip[OF h] h show ?thesis by simp
qed

text \<open>
  The bound is needed. The header keeps the sample count modulo \<open>2 ^ 24\<close>
  (\<open>num_samples & 0xFFFFFF\<close>), so for a sequence of exactly \<open>2 ^ 24\<close> samples the
  header says 0 and the decoder returns no sample at all.
\<close>

theorem pack_decode_roundtrip_counterexample:
  "ebind (generate_c_header (tobytes (replicate 16777216 (0 :: 16 word))))
      (\<lambda>(n, ws). Inr (decode_spec ws))
     \<noteq> (Inr (map sint (replicate 16777216 (0 :: 16 word))) :: error + int list)"
proof
  assume "ebind (generate_c_header (tobytes (replicate 16777216 (0 :: 16 word))))
      (\<lambda>(n, ws). Inr (decode_spec ws))
     = (Inr (map sint (replicate 16777216 (0 :: 16 word))) :: error + int list)"
  then have "take (length (replicate 16777216 (0 :: 16 word)) mod 2 ^ 24)
       (map sint (replicate 16777216 (0 :: 16 word))) = map sint (replicate 16777216 (0 :: 16 word))"
    by (simp only: roundtrip_general sum.inject)
  then have "length (take (length (replicate 16777216 (0 :: 16 word)) mod 2 ^ 24)
       (map sint (replicate 16777216 (0 :: 16 word)))) = length (map sint (replicate 16777216 (0 :: 16 word)))"
    by (rule arg_cong)
  then have "min (16777216 :: nat) (16777216 mod 2 ^ 24) = 16777216"
    by (simp only: length_take length_map length_replicate)
  then show False by simp
qed

subsection \<open>C3: quantisation truncates the rounded product and does not clamp\<close>

text \<open>
  C3, as amended. For every buffer whose samples lie in \<open>[-1, 1]\<close>, and every rounding
  \<open>fl\<close> of the format of the buffer, \<open>save_as_raw\<close> writes for each sample \<open>x\<close> the
  16-bit signed integer obtained by discarding the fractional part (rounding toward zero,
  not to nearest) of the product \<open>x * 32767\<close> as the floating-point arithmetic gives it,
  \<open>fl (x * 32767)\<close>. That integer is \<open>\<lfloor>x * 32767\<rfloor>\<close> or \<open>\<lceil>x * 32767\<rceil>\<close> and lies within
  \<open>[-32767, 32767]\<close>. The raw file read back as little-endian 16-bit integers is the list
  of these integers, and the returned size is two bytes per sample. The code does not
  clamp: a product whose integer part lies in \<open>[32768, 65535]\<close> is written as that
  integer minus 65536 (its low 16 bits, by the model of the conversion), so that
  \<open>x = 1.5\<close> is written as \<open>-16386\<close> and not as 32767.
\<close>

theorem save_as_raw_truncates:
  assumes "float_rounding fl" and "\<forall>x\<in>set xs. \<bar>x\<bar> \<le> 1"
  shows "struct_unpack_h (fst (save_as_raw fl xs))
           = Inr (map (\<lambda>x. trunc_toward_zero (fl (x * 32767))) xs)
       \<and> snd (save_as_raw fl xs) = 2 * length xs
       \<and> (\<forall>x\<in>set xs.
            (trunc_toward_zero (fl (x * 32767)) = \<lfloor>x * 32767\<rfloor>
               \<or> trunc_toward_zero (fl (x * 32767)) = \<lceil>x * 32767\<rceil>)
          \<and> - 32767 \<le> trunc_toward_zero (fl (x * 32767))
          \<and> trunc_toward_zero (fl (x * 32767)) \<le> 32767)
       \<and> (\<forall>z. 32768 \<le> trunc_toward_zero (fl (z * 32767))
                \<and> trunc_toward_zero (fl (z * 32767)) < 65536 \<longrightarrow>
              struct_unpack_h (fst (save_as_raw fl [z]))
                = Inr [trunc_toward_zero (fl (z * 32767)) - 65536])
       \<and> struct_unpack_h (fst (save_as_raw fl [3 / 2])) = Inr [- 16386]"
proof -
  have p: "\<bar>x * 32767\<bar> \<le> real_of_int 32767" if "x \<in> set xs" for x
    using assms(2) that by (simp add: abs_mult)
  have s: "sint (astype_int16 (fl (x * 32767))) = trunc_toward_zero (fl (x * 32767))"
    if "x \<in> set xs" for x
    using quantize_fl_bound(2)[OF assms(1) p[OF that]] by simp
  then have m: "map (\<lambda>x. sint (astype_int16 (fl (x * 32767)))) xs
              = map (\<lambda>x. trunc_toward_zero (fl (x * 32767))) xs"
    by simp
  have r: "- 32767 \<le> trunc_toward_zero (fl (x * 32767))
         \<and> trunc_toward_zero (fl (x * 32767)) \<le> 32767" if "x \<in> set xs" for x
    using quantize_fl_bound(1)[OF assms(1) p[OF that]] by (simp add: abs_le_iff)
  have fc: "trunc_toward_zero (fl (x * 32767)) = \<lfloor>x * 32767\<rfloor>
          \<or> trunc_toward_zero (fl (x * 32767)) = \<lceil>x * 32767\<rceil>" if "x \<in> set xs" for x
    using p[OF that] by (intro trunc_fl_floor_ceiling[OF assms(1)]) simp
  have l: "snd (save_as_raw fl xs) = 2 * length xs" by (simp add: save_as_raw_def Let_def)
  have w: "struct_unpack_h (fst (save_as_raw fl [z]))
                = Inr [trunc_toward_zero (fl (z * 32767)) - 65536]"
    if "32768 \<le> trunc_toward_zero (fl (z * 32767))" "trunc_toward_zero (fl (z * 32767)) < 65536"
    for z
    using sint_astype_int16_wrap[OF that] by (simp add: save_as_raw_unpack)
  have g: "fl (3 / 2 * 32767) = 98301 / 2"
    using float_rounding_grid[OF assms(1), of 12582528] by simp
  have t: "trunc_toward_zero (98301 / 2) = 49150" by (simp add: trunc_toward_zero_def)
  have e: "struct_unpack_h (fst (save_as_raw fl [3 / 2])) = Inr [- 16386]"
    using w[of "3 / 2"] unfolding g t by simp
  from m r fc l w e show ?thesis by (simp add: save_as_raw_unpack)
qed

theorem save_as_raw_truncates_witness:
  "float_rounding fl32 \<and> \<bar>32769 / 65536 :: real\<bar> \<le> 1 \<and> \<bar>- 1 / 2 :: real\<bar> \<le> 1
   \<and> struct_unpack_h (fst (save_as_raw fl32 [32769 / 65536, - 1 / 2])) = Inr [16384, - 16383]
   \<and> \<lfloor>32769 / 65536 * 32767 :: real\<rfloor> = 16383 \<and> \<lceil>32769 / 65536 * 32767 :: real\<rceil> = 16384
   \<and> struct_unpack_h (fst (save_as_raw fl32 [3 / 2])) = Inr [- 16386]"
proof -
  have h: "\<forall>x\<in>set [32769 / 65536, - 1 / 2 :: real]. \<bar>x\<bar> \<le> 1" by simp
  have n: "fl32 (- (32767 / 2)) = - (32767 / 2)"
    by (simp only: fl32_minus fl32_half_scale)
  have t: "trunc_toward_zero (16384 :: real) = 16384" "trunc_toward_zero (- (32767 / 2) :: real) = - 16383"
    by (simp_all add: trunc_toward_zero_def)
  have fc: "\<lfloor>32769 / 65536 * 32767 :: real\<rfloor> = 16383" "\<lceil>32769 / 65536 * 32767 :: real\<rceil> = 16384"
    by (simp_all add: floor_eq_iff ceiling_eq_iff)
  note th = save_as_raw_truncates[OF float_rounding_fl32 h]
  from th have a: "struct_unpack_h (fst (save_as_raw fl32 [32769 / 65536, - 1 / 2])) = Inr [16384, - 16383]"
    by (simp add: fl32_round_up n t)
  from th have b: "struct_unpack_h (fst (save_as_raw fl32 [3 / 2])) = Inr [- 16386]"
    by (simp only:)
  from float_rounding_fl32 a b fc show ?thesis by simp
qed

text \<open>
  In the witness the product of \<open>32769/65536\<close> and 32767, which is 16383.99998, is
  rounded to 16384 in binary32 before the conversion: 16384 is written, where the integer
  part of the exact product is 16383.

  Rounding to nearest, as the specification words it, fails at \<open>x = 1/2\<close>: the product
  16383.5 is a binary32 number, and it is written as 16383 where \<open>round\<close> gives 16384.
\<close>

theorem save_as_raw_round_counterexample:
  "struct_unpack_h (fst (save_as_raw fl32 [1 / 2])) = Inr [16383]
   \<and> map spec_quantize [1 / 2] = [16384]"
proof -
  have t: "trunc_toward_zero (32767 / 2) = 16383" by (simp add: trunc_toward_zero_def)
  then have "\<bar>trunc_toward_zero (32767 / 2)\<bar> \<le> 32767" by simp
  then have "sint (astype_int16 (32767 / 2)) = 16383"
    using sint_astype_int16[of "32767 / 2"] t by simp
  then show ?thesis
    by (simp add: save_as_raw_unpack fl32_half_scale spec_quantize_def round_def)
qed

subsection \<open>C4: the first bag whose key range contains the note wins\<close>

text \<open>
  C4. For an instrument whose bags all have a key range of a shape the source reads
  (absent, a list of two keys, or an integer), and for every note: scanning the bags in
  declared order, the resolver returns the sample of the first bag whose key range
  contains the note, whatever later bags contain it too; with key ranges [30,40] then
  [35,45], note 37 resolves to the bag of [30,40]. A note that no key range contains
  resolves to nothing and is absent from the extracted list, and the extraction over
  the notes 27..87 returns a list rather than an error: the list of the notes, in
  ascending order, that resolve to a sample and whose sample is written, whatever the
  outcome \<open>written\<close> of the writing is.
\<close>

theorem find_sample_first_match:
  assumes "\<forall>b\<in>set bags. key_bounds (key_range b) \<noteq> Inl TypeError"
  shows "(\<forall>n i. i < length bags \<and> covers (bags ! i) n \<and> (\<forall>j<i. \<not> covers (bags ! j) n)
            \<longrightarrow> find_sample bags n = Inr (sample (bags ! i)))
       \<and> (\<forall>n. (\<forall>b\<in>set bags. \<not> covers b n) \<longrightarrow> find_sample bags n = Inr None)
       \<and> (\<exists>out. extract_drums written bags = Inr out
             \<and> map fst out
                 = filter (\<lambda>n. \<exists>s. find_sample bags n = Inr (Some s) \<and> written n s) [27..87]
             \<and> (\<forall>n s. (n, s) \<in> set out \<longrightarrow> find_sample bags n = Inr (Some s) \<and> written n s)
             \<and> (\<forall>n. (\<forall>b\<in>set bags. \<not> covers b n) \<longrightarrow> n \<notin> fst ` set out))"
proof -
  have a: "\<forall>n i. i < length bags \<and> covers (bags ! i) n \<and> (\<forall>j<i. \<not> covers (bags ! j) n)
            \<longrightarrow> find_sample bags n = Inr (sample (bags ! i))"
    using find_sample_first[OF assms] by blast
  have b: "\<forall>n. (\<forall>b\<in>set bags. \<not> covers b n) \<longrightarrow> find_sample bags n = Inr None"
    using find_sample_none[OF assms] by blast
  from extract_notes_wf[OF assms, of written "[27..87]"] obtain out where out:
    "extract_drums written bags = Inr out"
    "map fst out = filter (\<lambda>n. \<exists>s. find_sample bags n = Inr (Some s) \<and> written n s) [27..87]"
    "\<forall>n s. (n, s) \<in> set out \<longrightarrow> find_sample bags n = Inr (Some s) \<and> written n s"
    unfolding extract_drums_def by blast
  have "n \<notin> fst ` set out" if "\<forall>b\<in>set bags. \<not> covers b n" for n
  proof
    assume "n \<in> fst ` set out"
    then obtain s where "(n, s) \<in> set out" by auto
    with out(3) have "find_sample bags n = Inr (Some s)" by blast
    moreover from b that have "find_sample bags n = Inr None" by blast
    ultimately show False by simp
  qed
  with a b out show ?thesis by blast
qed

theorem find_sample_first_match_witness:
  "covers \<lparr>key_range = KRList [30, 40], sample = Some \<lparr>raw_sample_data = [1, 2], sample_rate = 22050\<rparr>\<rparr> 37
   \<and> covers \<lparr>key_range = KRList [35, 45], sample = Some \<lparr>raw_sample_data = [3, 4], sample_rate = 44100\<rparr>\<rparr> 37
   \<and> find_sample
        [\<lparr>key_range = KRList [30, 40], sample = Some \<lparr>raw_sample_data = [1, 2], sample_rate = 22050\<rparr>\<rparr>,
         \<lparr>key_range = KRList [35, 45], sample = Some \<lparr>raw_sample_data = [3, 4], sample_rate = 44100\<rparr>\<rparr>] 37
       = Inr (Some \<lparr>raw_sample_data = [1, 2], sample_rate = 22050\<rparr>)
   \<and> find_sample
        [\<lparr>key_range = KRList [30, 40], sample = Some \<lparr>raw_sample_data = [1, 2], sample_rate = 22050\<rparr>\<rparr>,
         \<lparr>key_range = KRList [35, 45], sample = Some \<lparr>raw_sample_data = [3, 4], sample_rate = 44100\<rparr>\<rparr>] 50
       = Inr None
   \<and> (\<exists>out. extract_drums (\<lambda>note_num s. True)
        [\<lparr>key_range = KRList [30, 40], sample = Some \<lparr>raw_sample_data = [1, 2], sample_rate = 22050\<rparr>\<rparr>,
         \<lparr>key_range = KRList [35, 45], sample = Some \<lparr>raw_sample_data = [3, 4], sample_rate = 44100\<rparr>\<rparr>]
       = Inr out \<and> map fst out = [30..45] \<and> 50 \<notin> fst ` set out)"
proof -
  define b1 where "b1 = \<lparr>key_range = KRList [30, 40], sample = Some \<lparr>raw_sample_data = [1, 2], sample_rate = 22050\<rparr>\<rparr>"
  define b2 where "b2 = \<lparr>key_range = KRList [35, 45], sample = Some \<lparr>raw_sample_data = [3, 4], sample_rate = 44100\<rparr>\<rparr>"
  have wf: "\<forall>b\<in>set [b1, b2]. key_bounds (key_range b) \<noteq> Inl TypeError"
    by (simp add: b1_def b2_def key_bounds_def)
  have c1: "covers b1 37" and c2: "covers b2 37"
    by (simp_all add: b1_def b2_def covers_def key_bounds_def)
  have n50: "\<forall>b\<in>set [b1, b2]. \<not> covers b 50"
    by (simp add: b1_def b2_def covers_def key_bounds_def)
  note th = find_sample_first_match[OF wf, of "\<lambda>note_num s. True"]
  note p1 = th[THEN conjunct1, rule_format, of 0 37]
  note p2 = th[THEN conjunct2, THEN conjunct1, rule_format, of 50]
  note p3 = th[THEN conjunct2, THEN conjunct2]
  have f37: "find_sample [b1, b2] 37 = Inr (sample b1)"
    using p1 c1 by simp
  have f50: "find_sample [b1, b2] 50 = Inr None"
    using p2 n50 by simp
  have fs: "find_sample [b1, b2] n
      = (if 30 \<le> n \<and> n \<le> 40 then Inr (sample b1)
         else if 35 \<le> n \<and> n \<le> 45 then Inr (sample b2) else Inr None)" for n
    by (simp add: b1_def b2_def key_bounds_def)
  have ex: "(\<exists>s. find_sample [b1, b2] n = Inr (Some s) \<and> True) = (30 \<le> n \<and> n \<le> 45)" for n
    unfolding fs by (auto simp: b1_def b2_def)
  have fl: "filter (\<lambda>n. 30 \<le> n \<and> n \<le> 45) [27..87] = [30..45]"
    by code_simp
  from p3 obtain out where o: "extract_drums (\<lambda>note_num s. True) [b1, b2] = Inr out"
    and om: "map fst out
        = filter (\<lambda>n. \<exists>s. find_sample [b1, b2] n = Inr (Some s) \<and> True) [27..87]"
    and o': "\<forall>n. (\<forall>b\<in>set [b1, b2]. \<not> covers b n) \<longrightarrow> n \<notin> fst ` set out"
    by (elim exE conjE)
  from om have om': "map fst out = [30..45]" unfolding ex fl .
  from o' have "(\<forall>b\<in>set [b1, b2]. \<not> covers b 50) \<longrightarrow> 50 \<notin> fst ` set out" by (rule spec)
  from this n50 have "50 \<notin> fst ` set out" by (rule mp)
  with o om' have out: "\<exists>out. extract_drums (\<lambda>note_num s. True) [b1, b2] = Inr out
      \<and> map fst out = [30..45] \<and> 50 \<notin> fst ` set out"
    by (intro exI conjI)
  from c1 c2 f37 f50 out show ?thesis unfolding b1_def b2_def
    by (simp only: inst_bag.simps simp_thms)
qed

subsection \<open>C5: peak normalisation\<close>



subsection \<open>C6: silence trimming keeps 4409 samples after the last loud one\<close>

text \<open>
  C6. For every non-empty buffer, with the threshold at 1% of the absolute peak, \<open>f\<close>
  the first and \<open>l\<close> the last index whose absolute value strictly exceeds the threshold:
  \<open>trim_silence\<close> returns the slice \<open>[max 0 (f - 100) : min len (l + 4410)]\<close>. The
  end of a slice is exclusive, so what is kept is the buffer from 100 samples before \<open>f\<close>
  (or from its start) up to and including sample \<open>l\<close>, followed by the next 4409
  samples (or by all that remain): one sample fewer than the 4410 samples, 0.1 s, that
  the comment of the source and the specification announce. When no sample exceeds the
  threshold the buffer is returned unchanged. In both cases the call returns, and the
  result is not empty.
\<close>

theorem trim_silence_keeps_4409:
  assumes "xs \<noteq> []"
  shows "(\<forall>f l. f < length xs \<and> \<bar>xs ! f\<bar> > Max (abs ` set xs) * (1 / 100)
              \<and> (\<forall>i<f. \<not> \<bar>xs ! i\<bar> > Max (abs ` set xs) * (1 / 100))
              \<and> l < length xs \<and> \<bar>xs ! l\<bar> > Max (abs ` set xs) * (1 / 100)
              \<and> (\<forall>i. l < i \<and> i < length xs \<longrightarrow> \<not> \<bar>xs ! i\<bar> > Max (abs ` set xs) * (1 / 100))
            \<longrightarrow> trim_silence xs (1 / 100)
                   = Inr (drop (f - 100) (take (min (length xs) (l + 4410)) xs))
              \<and> drop (f - 100) (take (min (length xs) (l + 4410)) xs)
                   = drop (f - 100) (take (l + 1) xs) @ take 4409 (drop (l + 1) xs))
       \<and> ((\<forall>i<length xs. \<not> \<bar>xs ! i\<bar> > Max (abs ` set xs) * (1 / 100))
            \<longrightarrow> trim_silence xs (1 / 100) = Inr xs)
       \<and> (\<exists>ys. trim_silence xs (1 / 100) = Inr ys \<and> ys \<noteq> [])"
proof -
  define P where "P = (\<lambda>i. \<bar>xs ! i\<bar> > Max (abs ` set xs) * (1 / 100))"
  define ns where "ns = filter P [0..<length xs]"
  have u: "trim_silence xs (1 / 100) =
      (if ns = [] then Inr xs
       else Inr (drop (hd ns - 100) (take (min (length xs) (last ns + 4410)) xs)))"
    unfolding ns_def P_def trim_silence_unfold[OF assms] Let_def ..
  have a: "trim_silence xs (1 / 100) = Inr (drop (f - 100) (take (min (length xs) (l + 4410)) xs))
         \<and> drop (f - 100) (take (min (length xs) (l + 4410)) xs)
             = drop (f - 100) (take (l + 1) xs) @ take 4409 (drop (l + 1) xs)"
    if "f < length xs" "P f" "\<forall>i<f. \<not> P i" "l < length xs" "P l"
       "\<forall>i. l < i \<and> i < length xs \<longrightarrow> \<not> P i" for f l
  proof -
    have "ns \<noteq> []" and "hd ns = f" unfolding ns_def using that(1-3) by (rule hd_filter_upt)+
    moreover have "last ns = l" unfolding ns_def using that(4-6) by (rule last_filter_upt)
    ultimately have t: "trim_silence xs (1 / 100)
        = Inr (drop (f - 100) (take (min (length xs) (l + 4410)) xs))" by (simp add: u)
    have "f \<le> l"
    proof (rule ccontr)
      assume "\<not> f \<le> l"
      then have "l < f" by simp
      with that(3) have "\<not> P l" by blast
      with that(5) show False by blast
    qed
    from trim_slice_split[OF this that(4)] t show ?thesis by (rule_tac conjI)
  qed
  have b: "trim_silence xs (1 / 100) = Inr xs" if "\<forall>i<length xs. \<not> P i"
  proof -
    have "ns = []" unfolding ns_def using that by (simp add: filter_empty_conv)
    then show ?thesis by (simp add: u)
  qed
  have c: "\<exists>ys. trim_silence xs (1 / 100) = Inr ys \<and> ys \<noteq> []"
  proof (cases "ns = []")
    case True
    with assms show ?thesis by (simp add: u)
  next
    case False
    then have ne: "filter P [0..<length xs] \<noteq> []" by (simp add: ns_def)
    from hd_le_last_filter_upt[OF ne] have "hd ns \<le> last ns" "last ns < length xs"
      by (simp_all add: ns_def)
    then have "hd ns - 100 < min (length xs) (last ns + 4410)" by arith
    then have "0 < length (drop (hd ns - 100) (take (min (length xs) (last ns + 4410)) xs))"
      unfolding length_drop length_take by arith
    then have "drop (hd ns - 100) (take (min (length xs) (last ns + 4410)) xs) \<noteq> []"
      by (rule length_greater_0_conv[THEN iffD1])
    with False show ?thesis by (simp add: u)
  qed
  from a b c show ?thesis unfolding P_def by blast
qed

theorem trim_silence_keeps_4409_witness:
  "trim_silence (replicate 150 0 @ 1 # replicate 5000 0) (1 / 100)
     = Inr (replicate 100 0 @ 1 # replicate 4409 0)
   \<and> take 4409 (drop (150 + 1) (replicate 150 0 @ 1 # replicate 5000 (0 :: real)))
       = replicate 4409 0
   \<and> trim_silence [0, 0] (1 / 100) = Inr [0, 0]"
proof -
  define xs :: "real list" where "xs = replicate 150 0 @ 1 # replicate 5000 0"
  have h: "xs \<noteq> []" by (simp add: xs_def)
  have len: "length xs = 5151" by (simp add: xs_def)
  have m: "Max (abs ` set xs) = 1" by (simp add: xs_def)
  have nth: "xs ! i = (if i = 150 then 1 else 0)" if "i < 5151" for i
    using that by (auto simp: xs_def nth_append nth_Cons')
  have p: "\<forall>i<150. \<not> \<bar>xs ! i\<bar> > 1 * (1 / 100)" by (simp add: nth)
  have q: "\<forall>i. 150 < i \<and> i < length xs \<longrightarrow> \<not> \<bar>xs ! i\<bar> > 1 * (1 / 100)"
    by (simp add: nth len)
  have a: "\<bar>xs ! 150\<bar> > 1 * (1 / 100)" by (simp add: nth)
  note t = trim_silence_keeps_4409[OF h, unfolded m, THEN conjunct1, rule_format, of 150 150]
  have c: "150 < length xs \<and> \<bar>xs ! 150\<bar> > 1 * (1 / 100)
      \<and> (\<forall>i<150. \<not> \<bar>xs ! i\<bar> > 1 * (1 / 100))
      \<and> 150 < length xs \<and> \<bar>xs ! 150\<bar> > 1 * (1 / 100)
      \<and> (\<forall>i. 150 < i \<and> i < length xs \<longrightarrow> \<not> \<bar>xs ! i\<bar> > 1 * (1 / 100))"
    using p q a len by simp
  from t[OF c] have r1: "trim_silence xs (1 / 100)
      = Inr (drop (150 - 100) (take (min (length xs) (150 + 4410)) xs))"
    and r2: "drop (150 - 100) (take (min (length xs) (150 + 4410)) xs)
      = drop (150 - 100) (take (150 + 1) xs) @ take 4409 (drop (150 + 1) xs)"
    by (rule conjunct1, rule conjunct2)
  have d1: "drop (150 - 100) (take (150 + 1) xs) = replicate 100 0 @ [1]"
    by (simp add: xs_def)
  have d2: "take 4409 (drop (150 + 1) xs) = replicate 4409 0"
    by (simp add: xs_def)
  have "trim_silence xs (1 / 100) = Inr (replicate 100 0 @ 1 # replicate 4409 0)"
    unfolding r1 r2 d1 d2 by simp
  then have trimmed: "trim_silence (replicate 150 0 @ 1 # replicate 5000 0) (1 / 100)
     = Inr (replicate 100 0 @ 1 # replicate 4409 0)" unfolding xs_def .
  have h0: "[0, 0 :: real] \<noteq> []" by simp
  have m0: "Max (abs ` set [0, 0 :: real]) = 0" by simp
  note t0 = trim_silence_keeps_4409[OF h0, unfolded m0]
  have "\<forall>i<length [0, 0 :: real]. \<not> \<bar>[0, 0 :: real] ! i\<bar> > 0 * (1 / 100)"
    by (simp add: less_Suc_eq)
  with t0[THEN conjunct2, THEN conjunct1] have silent: "trim_silence [0, 0] (1 / 100) = Inr [0, 0]"
    by (rule_tac mp)
  from trimmed d2[unfolded xs_def] silent show ?thesis by (intro conjI)
qed

subsection \<open>C7: fade-in and fade-out\<close>

text \<open>
  C7. For every non-empty buffer of length \<open>n\<close>: \<open>apply_fade_in\<close> with 882 keeps the
  length, multiplies sample \<open>i\<close> by the \<open>i\<close>-th value of the ramp of
  \<open>k = min 882 n\<close> points for \<open>i < k\<close> and leaves the other samples unchanged; the ramp
  is linear from 0 to 1, its \<open>i\<close>-th value being \<open>i / (k - 1)\<close> (the single value 0
  when \<open>k = 1\<close>), and it never decreases. \<open>apply_fade_out\<close> with 2205 returns a
  buffer of the same length, multiplies the last \<open>k' = min 2205 n\<close> samples by the ramp
  whose \<open>i\<close>-th value is \<open>1 - i / (k' - 1)\<close> (the single value 1 when \<open>k' = 1\<close>),
  which never increases, and leaves the samples before them unchanged. Each window is
  clamped to the buffer on its own.
\<close>

theorem fades_spec:
  assumes "xs \<noteq> []"
  shows "length (apply_fade_in xs 882) = length xs
       \<and> (\<forall>i<length xs. apply_fade_in xs 882 ! i =
             (if i < min 882 (length xs)
              then xs ! i * linspace 0 1 (min 882 (length xs)) ! i else xs ! i))
       \<and> (\<forall>i<min 882 (length xs). linspace 0 1 (min 882 (length xs)) ! i =
             (if min 882 (length xs) = 1 then 0
              else real i / real (min 882 (length xs) - 1)))
       \<and> (\<forall>i j. i \<le> j \<and> j < min 882 (length xs) \<longrightarrow>
             linspace 0 1 (min 882 (length xs)) ! i \<le> linspace 0 1 (min 882 (length xs)) ! j)
       \<and> (\<exists>ys. apply_fade_out xs 2205 = Inr ys \<and> length ys = length xs
             \<and> (\<forall>i<length xs. ys ! i =
                   (if length xs - min 2205 (length xs) \<le> i
                    then xs ! i * linspace 1 0 (min 2205 (length xs))
                                    ! (i - (length xs - min 2205 (length xs)))
                    else xs ! i)))
       \<and> (\<forall>i<min 2205 (length xs). linspace 1 0 (min 2205 (length xs)) ! i =
             (if min 2205 (length xs) = 1 then 1
              else 1 - real i / real (min 2205 (length xs) - 1)))
       \<and> (\<forall>i j. i \<le> j \<and> j < min 2205 (length xs) \<longrightarrow>
             linspace 1 0 (min 2205 (length xs)) ! j \<le> linspace 1 0 (min 2205 (length xs)) ! i)"
proof -
  have a: "length (apply_fade_in xs 882) = length xs" by (rule apply_fade_in_length)
  have b: "\<forall>i<length xs. apply_fade_in xs 882 ! i =
             (if i < min 882 (length xs)
              then xs ! i * linspace 0 1 (min 882 (length xs)) ! i else xs ! i)"
    using apply_fade_in_nth by blast
  have c: "\<forall>i<k. linspace 0 1 k ! i = (if k = 1 then 0 else real i / real (k - 1))" for k
    by (simp add: nth_linspace)
  have d: "\<forall>i j. i \<le> j \<and> j < k \<longrightarrow> linspace 0 1 k ! i \<le> linspace 0 1 k ! j" for k
    using linspace_up by blast
  have e: "\<exists>ys. apply_fade_out xs 2205 = Inr ys \<and> length ys = length xs
             \<and> (\<forall>i<length xs. ys ! i =
                   (if length xs - min 2205 (length xs) \<le> i
                    then xs ! i * linspace 1 0 (min 2205 (length xs))
                                    ! (i - (length xs - min 2205 (length xs)))
                    else xs ! i))"
    by (rule apply_fade_out_nth[OF assms]) simp
  have f: "\<forall>i<k. linspace 1 0 k ! i = (if k = 1 then 1 else 1 - real i / real (k - 1))" for k
    by (simp add: nth_linspace)
  have g: "\<forall>i j. i \<le> j \<and> j < k \<longrightarrow> linspace 1 0 k ! j \<le> linspace 1 0 k ! i" for k
    using linspace_down by blast
  from a b c[of "min 882 (length xs)"] d[of "min 882 (length xs)"] e
       f[of "min 2205 (length xs)"] g[of "min 2205 (length xs)"]
  show ?thesis by (intro conjI)
qed

theorem fades_spec_witness:
  "replicate 3000 (1 :: real) \<noteq> []
   \<and> apply_fade_in (replicate 3000 1) 882 ! 0 = 0
   \<and> apply_fade_in (replicate 3000 1) 882 ! 881 = 1
   \<and> apply_fade_in (replicate 3000 1) 882 ! 882 = 1
   \<and> apply_fade_in [5, 5, 5] 882 ! 1 = 5 / 2
   \<and> (\<exists>ys. apply_fade_out (replicate 3000 1) 2205 = Inr ys
          \<and> ys ! 794 = 1 \<and> ys ! 795 = 1 \<and> ys ! 2999 = 0)"
proof -
  have h: "replicate 3000 (1 :: real) \<noteq> []" and h3: "[5, 5, 5 :: real] \<noteq> []" by simp_all
  note t = fades_spec[OF h]
  note t3 = fades_spec[OF h3]
  note tin = t[THEN conjunct2, THEN conjunct1, rule_format]
  note ramp = t[THEN conjunct2, THEN conjunct2, THEN conjunct1, rule_format]
  have a0: "apply_fade_in (replicate 3000 1) 882 ! 0 = 0"
    using tin[of 0] ramp[of 0] by simp
  have a881: "apply_fade_in (replicate 3000 1) 882 ! 881 = 1"
    using tin[of 881] ramp[of 881] by simp
  have a882: "apply_fade_in (replicate 3000 1) 882 ! 882 = 1"
    using tin[of 882] by simp
  have a3: "apply_fade_in [5, 5, 5] 882 ! 1 = 5 / 2"
    using t3[THEN conjunct2, THEN conjunct1, rule_format, of 1]
          t3[THEN conjunct2, THEN conjunct2, THEN conjunct1, rule_format, of 1] by simp
  note tout = t[THEN conjunct2, THEN conjunct2, THEN conjunct2, THEN conjunct2, THEN conjunct1]
  note rampo = t[THEN conjunct2, THEN conjunct2, THEN conjunct2, THEN conjunct2, THEN conjunct2,
                 THEN conjunct1, rule_format]
  from tout obtain ys where ys: "apply_fade_out (replicate 3000 1) 2205 = Inr ys"
    and n: "\<forall>i<length (replicate 3000 (1::real)). ys ! i =
                   (if length (replicate 3000 (1::real)) - min 2205 (length (replicate 3000 (1::real))) \<le> i
                    then replicate 3000 (1::real) ! i * linspace 1 0 (min 2205 (length (replicate 3000 (1::real))))
                                    ! (i - (length (replicate 3000 (1::real)) - min 2205 (length (replicate 3000 (1::real)))))
                    else replicate 3000 (1::real) ! i)"
    by (elim exE conjE)
  have o794: "ys ! 794 = 1" using n[rule_format, of 794] by simp
  have o795: "ys ! 795 = 1" using n[rule_format, of 795] rampo[of 0] by simp
  have o2999: "ys ! 2999 = 0" using n[rule_format, of 2999] rampo[of 2204] by simp
  from ys o794 o795 o2999 have "\<exists>ys. apply_fade_out (replicate 3000 1) 2205 = Inr ys
          \<and> ys ! 794 = 1 \<and> ys ! 795 = 1 \<and> ys ! 2999 = 0" by (intro exI conjI)
  with h a0 a881 a882 a3 show ?thesis by (intro conjI)
qed

subsection \<open>C8: a buffer without samples\<close>

text \<open>
  C8, as amended. The code has no check for an empty buffer and no error of its own for
  it. Given a buffer of no samples, the encoder functions do not fail: \<open>save_as_raw\<close>
  writes an empty raw file and \<open>generate_c_header\<close> emits an array of one word, the
  header \<open>0x81000000\<close>. In \<open>process_wav_to_raw\<close> an empty buffer does not reach them:
  the peak computation of \<open>trim_silence\<close> raises \<open>ValueError\<close> first (shown for an
  empty 16-bit mono file at 44100 Hz), so that every asset which \<open>process_wav_to_raw\<close>
  emits has at least one sample. This holds whatever the rounding of the arithmetic is.
\<close>

theorem empty_audio_not_encoded:
  "save_as_raw fl [] = ([], 0)
   \<and> generate_c_header (fst (save_as_raw fl [])) = Inr (1, [0x81000000])
   \<and> process_wav_to_raw fl fl_scale scipy
        \<lparr>nchannels = 1, sampwidth = 2, framerate = 44100, frames = []\<rparr>
       = Inl ValueError
   \<and> (\<forall>wav a. process_wav_to_raw fl fl_scale scipy wav = Inr (Some a) \<longrightarrow> 0 < samples a)"
proof -
  have e1: "save_as_raw fl [] = ([], 0)" by (rule save_as_raw_empty)
  have e2: "generate_c_header (fst (save_as_raw fl [])) = Inr (1, [0x81000000])"
    unfolding e1 fst_conv by (rule generate_c_header_empty)
  have "0 < samples a" if "process_wav_to_raw fl fl_scale scipy wav = Inr (Some a)" for wav a
  proof -
    from process_wav_to_raw_Some[OF that] obtain audio0 audio where
      c: "normalizer_chain fl fl_scale scipy (nchannels wav) (framerate wav) audio0 = Inr audio"
      and s: "samples a = length audio" by blast
    from normalizer_chain_nonempty[OF c] s show ?thesis by simp
  qed
  then have "\<forall>wav a. process_wav_to_raw fl fl_scale scipy wav = Inr (Some a) \<longrightarrow> 0 < samples a"
    by blast
  with e1 e2 process_empty[of fl fl_scale scipy] show ?thesis by (intro conjI)
qed

theorem empty_audio_not_encoded_witness:
  "process_wav_to_raw fl32 fl32 None
      \<lparr>nchannels = 1, sampwidth = 2, framerate = 44100, frames = [0, 0, 188, 0, 0, 0]\<rparr>
     = Inr (Some \<lparr>raw_file = [0, 0, 50, 115, 0, 0], num_uint32 = 3,
                  cpp_words = [0x81000003, 0x73320000, 0], size_bytes = 6, samples = 3\<rparr>)
   \<and> (0 :: nat) < samples \<lparr>raw_file = [0, 0, 50, 115, 0, 0], num_uint32 = 3,
                  cpp_words = [0x81000003, 0x73320000, 0], size_bytes = 6, samples = 3\<rparr>"
proof -
  note t = empty_audio_not_encoded[of fl32 fl32 None, THEN conjunct2, THEN conjunct2, THEN conjunct2,
             rule_format, OF process_example]
  from process_example t show ?thesis by (intro conjI)
qed

text \<open>
  The encoder itself, on the buffer of no samples: no failure, and an asset of length
  zero is emitted.
\<close>

theorem empty_audio_counterexample:
  "save_as_raw fl32 [] = ([], 0)
   \<and> generate_c_header (fst (save_as_raw fl32 [])) = Inr (1, [0x81000000])"
proof -
  have e1: "save_as_raw fl32 [] = ([], 0)" by (rule save_as_raw_empty)
  have e2: "generate_c_header (fst (save_as_raw fl32 [])) = Inr (1, [0x81000000])"
    unfolding e1 fst_conv by (rule generate_c_header_empty)
  from e1 e2 show ?thesis by (rule conjI)
qed

subsection \<open>C9: the files taken from a directory\<close>

text \<open>
  C9, as amended. For every directory (on a file system whose names are case-sensitive),
  every entry whose name ends in \<open>.wav\<close> or in \<open>.WAV\<close> is processed; every file
  processed is an entry of the directory whose extension matches \<open>.wav\<close> regardless of
  case, so an entry whose extension does not match is left out; the files are processed
  in ascending order of their names compared character by character by code point, so
  that every upper-case letter comes before every lower-case one; and each is processed
  once when the entry names are distinct.
\<close>

theorem sorted_wav_files_spec:
  "(\<forall>f\<in>set dir. glob_star ''.wav'' f \<or> glob_star ''.WAV'' f \<longrightarrow> f \<in> set (sorted_wav_files dir))
   \<and> (\<forall>f\<in>set (sorted_wav_files dir). f \<in> set dir \<and> spec_wav_match f)
   \<and> (\<forall>f\<in>set dir. \<not> spec_wav_match f \<longrightarrow> f \<notin> set (sorted_wav_files dir))
   \<and> sorted (sorted_wav_files dir)
   \<and> (distinct dir \<longrightarrow> distinct (sorted_wav_files dir))"
  using glob_star_spec
  by (auto simp: sorted_wav_files_def set_wav_files distinct_wav_files)

theorem sorted_wav_files_spec_witness:
  "distinct [''a.wav'', ''B.WAV'', ''c.txt'']
   \<and> distinct (sorted_wav_files [''a.wav'', ''B.WAV'', ''c.txt''])
   \<and> sorted (sorted_wav_files [''a.wav'', ''B.WAV'', ''c.txt''])
   \<and> glob_star ''.WAV'' ''B.WAV''
   \<and> ''B.WAV'' \<in> set (sorted_wav_files [''a.wav'', ''B.WAV'', ''c.txt''])
   \<and> spec_wav_match ''B.WAV''
   \<and> \<not> spec_wav_match ''c.txt''
   \<and> ''c.txt'' \<notin> set (sorted_wav_files [''a.wav'', ''B.WAV'', ''c.txt''])"
proof -
  have d: "distinct [''a.wav'', ''B.WAV'', ''c.txt'']" by simp
  note t = sorted_wav_files_spec[of "[''a.wav'', ''B.WAV'', ''c.txt'']"]
  from t d have a: "distinct (sorted_wav_files [''a.wav'', ''B.WAV'', ''c.txt''])" by blast
  from t have b: "sorted (sorted_wav_files [''a.wav'', ''B.WAV'', ''c.txt''])" by blast
  have g: "glob_star ''.WAV'' ''B.WAV''" by (simp add: glob_star_def)
  have ns: "\<not> spec_wav_match ''c.txt''" by code_simp
  have i1: "''B.WAV'' \<in> set [''a.wav'', ''B.WAV'', ''c.txt'']"
    and i2: "''c.txt'' \<in> set [''a.wav'', ''B.WAV'', ''c.txt'']" by simp_all
  from t[THEN conjunct1, rule_format, OF i1] g
  have m: "''B.WAV'' \<in> set (sorted_wav_files [''a.wav'', ''B.WAV'', ''c.txt''])" by simp
  from t[THEN conjunct2, THEN conjunct1, rule_format, OF m] have p: "spec_wav_match ''B.WAV''"
    by (rule conjunct2)
  from t[THEN conjunct2, THEN conjunct2, THEN conjunct1, rule_format, OF i2] ns
  have n: "''c.txt'' \<notin> set (sorted_wav_files [''a.wav'', ''B.WAV'', ''c.txt''])" by simp
  from d a b g m p ns n show ?thesis by (intro conjI)
qed

text \<open>
  The directory of the specification's example, \<open>a.wav\<close>, \<open>B.WAV\<close>, \<open>c.txt\<close>, is
  processed in the order \<open>B.WAV\<close>, \<open>a.wav\<close>, not in the order \<open>a.wav\<close>, \<open>B.WAV\<close>.
\<close>

theorem sorted_wav_files_counterexample:
  "sorted_wav_files [''a.wav'', ''B.WAV'', ''c.txt''] = [''B.WAV'', ''a.wav'']
   \<and> sorted_wav_files [''a.wav'', ''B.WAV'', ''c.txt''] \<noteq> [''a.wav'', ''B.WAV'']"
  by code_simp

text \<open>
  Left out of the amended statement: a name whose extension is of mixed case, such as
  \<open>x.Wav\<close>, is matched by neither of the two patterns, although its extension matches
  \<open>.wav\<close> regardless of case. The source lowers the suffix where it tests for \<open>.sf2\<close>
  and spells out two cases of the pattern here.
\<close>

lemma mixed_case_extension_missed:
  "spec_wav_match ''x.Wav'' \<and> sorted_wav_files [''x.Wav''] = []"
  by code_simp

subsection \<open>C10: the normalised buffer never overflows the 16-bit conversion\<close>

text \<open>
  C10, as amended. For a rounding \<open>fl\<close> of the format of the buffer, and a scale
  factor that is within a relative error of \<open>2 ^ -22\<close> of the exact quotient
  \<open>0.9 / peak\<close> for the buffer that reaches the last stage (binary32 and binary64
  division are more accurate than that, lemma \<open>fl32_scale_accurate\<close>): every buffer
  that the chain returns is not empty, and every sample \<open>y\<close> of it lies between the
  roundings of \<open>-0.9 * (1 + 2 ^ -22)\<close> and of \<open>0.9 * (1 + 2 ^ -22)\<close>, hence within
  \<open>231/256\<close> in absolute value: it can exceed 0.9 by a rounding error, not more. The
  integer part of the rounded product \<open>y * 32767\<close> then lies in the signed 16-bit range,
  so the conversion to \<open>int16\<close> yields that integer itself (no wrap-around), although
  the code does not clamp. The raw file holds exactly these integers. The bounds do not
  depend on the stages before the last one: they hold for whatever buffer reaches
  \<open>normalize_audio\<close> (lemma \<open>normalize_audio_fl_no_overflow\<close>).
\<close>

theorem normalizer_chain_no_overflow:
  assumes "float_rounding fl"
    and "\<forall>a5. faded_buffer scipy ch rate audio = Inr a5 \<and> 0 < Max (abs ` set a5) \<longrightarrow>
           \<bar>fl_scale (9 / 10 / Max (abs ` set a5)) - 9 / 10 / Max (abs ` set a5)\<bar>
             \<le> 9 / 10 / Max (abs ` set a5) / 2 ^ 22"
    and "normalizer_chain fl fl_scale scipy ch rate audio = Inr ys"
  shows "ys \<noteq> []
       \<and> (\<forall>y\<in>set ys.
             fl (- (9 / 10 * (1 + 1 / 2 ^ 22))) \<le> y \<and> y \<le> fl (9 / 10 * (1 + 1 / 2 ^ 22))
           \<and> \<bar>y\<bar> \<le> 231 / 256
           \<and> - 32768 \<le> trunc_toward_zero (fl (y * 32767))
           \<and> trunc_toward_zero (fl (y * 32767)) \<le> 32767
           \<and> sint (astype_int16 (fl (y * 32767))) = trunc_toward_zero (fl (y * 32767)))
       \<and> struct_unpack_h (fst (save_as_raw fl ys))
           = Inr (map (\<lambda>y. trunc_toward_zero (fl (y * 32767))) ys)"
proof -
  from normalizer_chain_last[OF assms(3)] obtain a5 where
    a5: "faded_buffer scipy ch rate audio = Inr a5"
    and n: "normalize_audio_fl fl fl_scale a5 (9 / 10) = Inr ys"
    by blast
  have acc: "0 < Max (abs ` set a5) \<longrightarrow>
           \<bar>fl_scale (9 / 10 / Max (abs ` set a5)) - 9 / 10 / Max (abs ` set a5)\<bar>
             \<le> 9 / 10 / Max (abs ` set a5) / 2 ^ 22"
    using assms(2) a5 by blast
  from normalize_audio_fl_no_overflow[OF assms(1) acc n] show ?thesis by blast
qed

theorem normalizer_chain_no_overflow_witness:
  "float_rounding fl32
   \<and> faded_buffer None 1 44100 [0, 188 / 32768, 0] = Inr [0, 47 / 32768, 0]
   \<and> 0 < Max (abs ` set [0, 47 / 32768, 0 :: real])
   \<and> \<bar>fl32 (9 / 10 / (47 / 32768)) - 9 / 10 / (47 / 32768)\<bar> \<le> 9 / 10 / (47 / 32768) / 2 ^ 22
   \<and> normalizer_chain fl32 fl32 None 1 44100 [0, 188 / 32768, 0]
       = Inr [0, 15099495 / 16777216, 0]
   \<and> \<bar>15099495 / 16777216 :: real\<bar> \<le> 231 / 256
   \<and> sint (astype_int16 (fl32 (15099495 / 16777216 * 32767))) = 29490
   \<and> struct_unpack_h (fst (save_as_raw fl32 [0, 15099495 / 16777216, 0])) = Inr [0, 29490, 0]"
proof -
  have m: "Max (abs ` set [0, 47 / 32768, 0 :: real]) = 47 / 32768" by simp
  have acc: "\<bar>fl32 (9 / 10 / (47 / 32768)) - 9 / 10 / (47 / 32768)\<bar> \<le> 9 / 10 / (47 / 32768) / 2 ^ 22"
    by (simp add: fl32_scale_47)
  have h: "\<forall>a5. faded_buffer None 1 44100 [0, 188 / 32768, 0] = Inr a5 \<and> 0 < Max (abs ` set a5) \<longrightarrow>
           \<bar>fl32 (9 / 10 / Max (abs ` set a5)) - 9 / 10 / Max (abs ` set a5)\<bar>
             \<le> 9 / 10 / Max (abs ` set a5) / 2 ^ 22"
  proof (intro allI impI, elim conjE)
    fix a5 :: "real list"
    assume "faded_buffer None 1 44100 [0, 188 / 32768, 0] = Inr a5"
    then have "a5 = [0, 47 / 32768, 0]" by (simp only: faded_buffer_example sum.inject)
    then show "\<bar>fl32 (9 / 10 / Max (abs ` set a5)) - 9 / 10 / Max (abs ` set a5)\<bar>
             \<le> 9 / 10 / Max (abs ` set a5) / 2 ^ 22"
      using acc by (simp only: m)
  qed
  have t: "trunc_toward_zero (7549517 / 256) = 29490" "trunc_toward_zero 0 = 0"
    by (simp_all add: trunc_toward_zero_def)
  note th = normalizer_chain_no_overflow[OF float_rounding_fl32 h chain_example]
  from th have a: "\<bar>15099495 / 16777216 :: real\<bar> \<le> 231 / 256" by simp
  from th have b: "sint (astype_int16 (fl32 (15099495 / 16777216 * 32767))) = 29490"
    by (simp add: fl32_quant_47 t)
  from th have c: "struct_unpack_h (fst (save_as_raw fl32 [0, 15099495 / 16777216, 0])) = Inr [0, 29490, 0]"
    by (simp add: fl32_quant_47 fl32_0 t)
  have p: "0 < Max (abs ` set [0, 47 / 32768, 0 :: real])" unfolding m by simp
  from float_rounding_fl32 faded_buffer_example p acc chain_example a b c show ?thesis
    by (intro conjI)
qed

text \<open>
  The bound 0.9 itself fails in binary32. The 16-bit mono file of the three samples 0,
  188, 0 at 44100 Hz is decoded to \<open>0, 188/32768, 0\<close>, which the fades turn into
  \<open>0, 47/32768, 0\<close>; the scale factor \<open>0.9 / (47/32768)\<close> is rounded to
  \<open>10280507/16384\<close>, and the product with the peak to \<open>15099495/16777216\<close>, which is
  0.90000004 and exceeds 0.9.
\<close>

theorem normalizer_chain_peak_counterexample:
  "normalizer_chain fl32 fl32 None 1 44100 [0, 188 / 32768, 0] = Inr [0, 15099495 / 16777216, 0]
   \<and> (9 / 10 :: real) < 15099495 / 16777216"
proof -
  have "(9 / 10 :: real) < 15099495 / 16777216" by simp
  with chain_example show ?thesis by (rule conjI)
qed

end
